theory Spec2Isabelle
  imports Complex_Main "HOL-Library.Multiset"
begin

section \<open>Geometric primitives (primitives.h, 2dtree.cpp lines 10-89)\<close>

text \<open>
  The coordinates of the source are C++ doubles. A coordinate is modelled by the real
  number it stands for: the coordinates of a point are finite doubles, and a finite
  double is a real number. Comparisons of coordinates are exact, as they are in the
  source. The arithmetic of \<open>Point::distance\<close> and of the nearest-neighbour search is that
  of IEEE 754 binary64 in the default rounding mode, modelled below: each operation
  returns the double nearest to the exact result, or an infinity where that is out of
  range. In \<open>operator==\<close>, \<open>Rect::distance\<close> and \<open>Rect::contains\<close> a difference of two
  coordinates is only compared with epsilon or with another such difference; there the
  difference is the exact one. \<open>std::numeric_limits<double>::epsilon()\<close> is \<open>2^-52\<close>.
  The counters \<open>m_size\<close>, \<open>max_depth\<close> and \<open>depth\<close> are \<open>std::size_t\<close>; they are modelled by
  natural numbers (they count nodes of the tree and cannot wrap before memory is
  exhausted).
\<close>

datatype Point = Point (x_coord: real) (y_coord: real)

definition eps :: real where
  "eps = 1 / 2 ^ 52"

subsection \<open>Arithmetic on doubles\<close>

text \<open>
  The values of a double: the finite ones, the two infinities and NaN. The two zeros
  compare equal and behave alike in the operations used here; they are one value.
\<close>

datatype double = Finite real | PlusInfinity | MinusInfinity | NaN

text \<open>
  Rounding to nearest, ties to even. A finite double is an integer multiple of its unit
  in the last place \<open>2^(e - 52)\<close>, the multiplier being below \<open>2^53\<close> in absolute value
  and the exponent \<open>e\<close> at least \<open>-1022\<close>; below \<open>2^-1022\<close> the doubles are the multiples
  of \<open>2^-1074\<close>. \<open>exponent x\<close> is the exponent of the doubles next to \<open>x\<close>.
\<close>

definition exponent :: "real \<Rightarrow> int" where
  "exponent x = (if x = 0 then - 1022 else max \<lfloor>log 2 \<bar>x\<bar>\<rfloor> (- 1022))"

definition ulp :: "real \<Rightarrow> real" where
  "ulp x = 2 powi (exponent x - 52)"

text \<open>The nearest integer, and the even one of two that are equally near.\<close>

definition round_half_even :: "real \<Rightarrow> int" where
  "round_half_even m =
     (let f = \<lfloor>m\<rfloor> in
      if m - of_int f < 1 / 2 then f
      else if m - of_int f > 1 / 2 then f + 1
      else if even f then f else f + 1)"

text \<open>The nearest multiple of the unit in the last place, whatever the exponent.\<close>

definition round_real :: "real \<Rightarrow> real" where
  "round_real x = of_int (round_half_even (x / ulp x)) * ulp x"

text \<open>
  The largest finite double is \<open>2^1024 - 2^971\<close>: a result that rounds to \<open>2^1024\<close> or
  beyond is an infinity.
\<close>

definition overflow :: real where
  "overflow = 2 ^ 1024"

definition round_to_double :: "real \<Rightarrow> double" where
  "round_to_double x =
     (let v = round_real x in
      if \<bar>v\<bar> \<ge> overflow then (if x < 0 then MinusInfinity else PlusInfinity)
      else Finite v)"

text \<open>
  The operations of \<open>Point::distance\<close> and \<open>findNeighbour\<close>. Each returns the exact result
  rounded: addition and \<open>std::sqrt\<close> by IEEE 754, and \<open>std::pow(x, 2)\<close> is taken to return
  the rounded square, which is what \<open>x * x\<close> returns and what the compiler evaluates the
  call to when it optimises. A difference of two coordinates is \<open>round_to_double\<close> of the
  exact difference.
\<close>

fun double_pow2 :: "double \<Rightarrow> double" where
  "double_pow2 (Finite x) = round_to_double (x\<^sup>2)"
| "double_pow2 PlusInfinity = PlusInfinity"
| "double_pow2 MinusInfinity = PlusInfinity"
| "double_pow2 NaN = NaN"

fun double_add :: "double \<Rightarrow> double \<Rightarrow> double" where
  "double_add (Finite x) (Finite y) = round_to_double (x + y)"
| "double_add NaN b = NaN"
| "double_add a NaN = NaN"
| "double_add PlusInfinity MinusInfinity = NaN"
| "double_add MinusInfinity PlusInfinity = NaN"
| "double_add PlusInfinity b = PlusInfinity"
| "double_add a PlusInfinity = PlusInfinity"
| "double_add MinusInfinity b = MinusInfinity"
| "double_add a MinusInfinity = MinusInfinity"

fun double_sqrt :: "double \<Rightarrow> double" where
  "double_sqrt (Finite x) = (if x < 0 then NaN else round_to_double (sqrt x))"
| "double_sqrt PlusInfinity = PlusInfinity"
| "double_sqrt MinusInfinity = NaN"
| "double_sqrt NaN = NaN"

fun double_abs :: "double \<Rightarrow> double" where
  "double_abs (Finite x) = Finite \<bar>x\<bar>"
| "double_abs PlusInfinity = PlusInfinity"
| "double_abs MinusInfinity = PlusInfinity"
| "double_abs NaN = NaN"

text \<open>The comparisons \<open><\<close>, \<open>==\<close> and \<open><=\<close> of doubles; each is false when an operand is NaN.\<close>

fun double_less :: "double \<Rightarrow> double \<Rightarrow> bool" where
  "double_less (Finite x) (Finite y) = (x < y)"
| "double_less (Finite x) PlusInfinity = True"
| "double_less MinusInfinity (Finite y) = True"
| "double_less MinusInfinity PlusInfinity = True"
| "double_less a b = False"

fun double_eq :: "double \<Rightarrow> double \<Rightarrow> bool" where
  "double_eq (Finite x) (Finite y) = (x = y)"
| "double_eq PlusInfinity PlusInfinity = True"
| "double_eq MinusInfinity MinusInfinity = True"
| "double_eq a b = False"

definition double_le :: "double \<Rightarrow> double \<Rightarrow> bool" where
  "double_le a b = (double_less a b \<or> double_eq a b)"

subsection \<open>Points and rectangles\<close>

text \<open>\<open>Point::distance\<close> (lines 16-20).\<close>

definition distance :: "Point \<Rightarrow> Point \<Rightarrow> double" where
  "distance p other =
     double_sqrt (double_add (double_pow2 (round_to_double (x_coord p - x_coord other)))
                             (double_pow2 (round_to_double (y_coord p - y_coord other))))"

text \<open>\<open>Point::operator==\<close>: both coordinate differences are below epsilon.\<close>

definition Point_eq :: "Point \<Rightarrow> Point \<Rightarrow> bool" where
  "Point_eq a p = (\<bar>x_coord a - x_coord p\<bar> < eps \<and> \<bar>y_coord a - y_coord p\<bar> < eps)"

datatype Rect = Rect (left_bottom: Point) (right_top: Point)

definition xmin :: "Rect \<Rightarrow> real" where "xmin r = x_coord (left_bottom r)"
definition ymin :: "Rect \<Rightarrow> real" where "ymin r = y_coord (left_bottom r)"
definition xmax :: "Rect \<Rightarrow> real" where "xmax r = x_coord (right_top r)"
definition ymax :: "Rect \<Rightarrow> real" where "ymax r = y_coord (right_top r)"

definition Rect_distance :: "Rect \<Rightarrow> Point \<Rightarrow> real" where
  "Rect_distance r p =
     (if x_coord p \<ge> xmin r \<and> x_coord p \<le> xmax r then
        (if y_coord p \<ge> ymin r \<and> y_coord p \<le> ymax r then 0
         else min \<bar>y_coord p - ymin r\<bar> \<bar>y_coord p - ymax r\<bar>)
      else min \<bar>x_coord p - xmin r\<bar> \<bar>x_coord p - xmax r\<bar>)"

definition Rect_contains :: "Rect \<Rightarrow> Point \<Rightarrow> bool" where
  "Rect_contains r p = (\<bar>Rect_distance r p\<bar> < eps)"

section \<open>The 2-d tree (namespace kdtree)\<close>

text \<open>
  A \<open>Node\<close> owns its two children through \<open>shared_ptr\<close>, so the nodes below \<open>m_root\<close>
  form a tree and are modelled by a datatype; \<open>Null\<close> is \<open>nullptr\<close>. The fields keep the
  order of the struct. The weak \<open>parent\<close> link is not a field of the datatype: \<open>insert\<close>
  (lines 256 and 260) sets the parent of every child it links to the node that holds the
  link, and nothing else writes it, so the parent of a node is the node one step above it
  on the path from the root. Functions that look at the identity of a node or at its
  parent (\<open>next\<close>, \<open>left\<close>, \<open>begin\<close>) work on a \<open>NodePtr\<close> below, which records that path.
\<close>

datatype Node = Null | Node (left: Node) (right: Node) (m_point: Point) (depth: nat)

record PointSet =
  max_depth :: nat
  m_root :: Node
  m_size :: nat

definition empty_PointSet :: PointSet where
  "empty_PointSet = \<lparr>max_depth = 0, m_root = Null, m_size = 0\<rparr>"

datatype error = NullPointerDereference

text \<open>The test \<open>toLeft\<close> of \<open>insert\<close> and \<open>find\<close>: the axis is chosen by the depth the node stores.\<close>

definition toLeft :: "nat \<Rightarrow> Point \<Rightarrow> Point \<Rightarrow> bool" where
  "toLeft d point mp =
     (if d mod 2 = 0 then x_coord point \<le> x_coord mp else y_coord point \<le> y_coord mp)"

text \<open>
  \<open>PointSet::insert\<close> (lines 241-263). It is a member function: it updates \<open>max_depth\<close>
  and \<open>m_size\<close> of the set and the pointer it is given by reference, and returns that
  pointer. The model threads the set and returns the new value of the pointer with it.
\<close>

fun insert_node :: "Point \<Rightarrow> Node \<Rightarrow> nat \<Rightarrow> PointSet \<Rightarrow> Node \<times> PointSet" where
  "insert_node point Null d s =
     (Node Null Null point d, s\<lparr>max_depth := max (max_depth s) d, m_size := m_size s + 1\<rparr>)"
| "insert_node point (Node l r mp nd) d s =
     (let s1 = s\<lparr>max_depth := max (max_depth s) d\<rparr> in
      if Point_eq mp point then (Node l r mp nd, s1)
      else if toLeft nd point mp then
        (let (l', s2) = insert_node point l (d + 1) s1 in (Node l' r mp nd, s2))
      else
        (let (r', s2) = insert_node point r (d + 1) s1 in (Node l r' mp nd, s2)))"

text \<open>
  The statement \<open>m_root = insert(p, m_root, 0)\<close> of \<open>put\<close> (line 282) and of
  \<open>buildTree\<close> (line 226).
\<close>

definition insert_at_root :: "Point \<Rightarrow> PointSet \<Rightarrow> PointSet" where
  "insert_at_root p s = (let (root', s1) = insert_node p (m_root s) 0 s in s1\<lparr>m_root := root'\<rparr>)"

text \<open>\<open>PointSet::find\<close> (lines 286-299) and \<open>PointSet::contains\<close> (lines 301-304).\<close>

fun find_node :: "Point \<Rightarrow> Node \<Rightarrow> Node" where
  "find_node p Null = Null"
| "find_node p (Node l r mp nd) =
     (if Point_eq mp p then Node l r mp nd
      else if toLeft nd p mp then find_node p l
      else find_node p r)"

definition contains :: "PointSet \<Rightarrow> Point \<Rightarrow> bool" where
  "contains s p = (find_node p (m_root s) \<noteq> Null)"

text \<open>\<open>PointSet::empty\<close> and \<open>PointSet::size\<close> (lines 231-239).\<close>

definition empty_set :: "PointSet \<Rightarrow> bool" where
  "empty_set s = (m_root s = Null)"

definition size_set :: "PointSet \<Rightarrow> nat" where
  "size_set s = m_size s"

subsection \<open>Range query (lines 306-329)\<close>

fun findPointsInRectangle :: "Node \<Rightarrow> Point list \<Rightarrow> Rect \<Rightarrow> Point list" where
  "findPointsInRectangle Null points rect = points"
| "findPointsInRectangle (Node l r mp nd) points rect =
     (let points1 = (if Rect_contains rect mp then points @ [mp] else points);
          goLeft = (if nd mod 2 = 0 then x_coord mp \<ge> xmin rect else y_coord mp \<ge> ymin rect);
          goRight = (if nd mod 2 = 0 then x_coord mp \<le> xmax rect else y_coord mp \<le> ymax rect);
          points2 = (if goLeft then findPointsInRectangle l points1 rect else points1)
      in if goRight then findPointsInRectangle r points2 rect else points2)"

text \<open>
  \<open>PointSet::range\<close> returns the iterators to the first element and past the last element
  of the vector it filled; the model returns that vector.
\<close>

definition range_query :: "PointSet \<Rightarrow> Rect \<Rightarrow> Point list" where
  "range_query s rect = findPointsInRectangle (m_root s) [] rect"

subsection \<open>Nearest neighbour (lines 341-372)\<close>

fun findNeighbour :: "Node \<Rightarrow> Point \<Rightarrow> Point \<Rightarrow> Point" where
  "findNeighbour Null point closest_found = closest_found"
| "findNeighbour (Node l r mp nd) point closest_found =
     (let dist = distance mp point;
          closest1 = (if double_less dist (distance point closest_found) then mp
                      else closest_found)
      in if double_eq dist (Finite 0) then closest1
         else
           let delta = (if nd mod 2 = 0 then round_to_double (x_coord mp - x_coord point)
                        else round_to_double (y_coord mp - y_coord point));
               closest2 = findNeighbour (if double_less (Finite 0) delta then l else r)
                            point closest1
           in if double_le (distance point closest2) (double_abs delta) then closest2
              else findNeighbour (if double_less (Finite 0) delta then r else l)
                     point closest2)"

text \<open>
  \<open>PointSet::nearest(point)\<close> reads \<open>*m_root->m_point\<close> before anything else: on the empty
  set this dereferences the null root. Otherwise the result is always a present optional.
\<close>

definition nearest :: "PointSet \<Rightarrow> Point \<Rightarrow> error + Point option" where
  "nearest s point =
     (case m_root s of
        Null \<Rightarrow> Inl NullPointerDereference
      | Node l r mp nd \<Rightarrow> Inr (Some (findNeighbour (m_root s) point mp)))"

subsection \<open>Node pointers, \<open>left\<close>, \<open>next\<close>, \<open>begin\<close> and \<open>end\<close> (lines 331-339, 406-442)\<close>

text \<open>
  A \<open>NodePtr\<close> whose identity matters is the position of its node below \<open>m_root\<close>:
  \<open>None\<close> is \<open>nullptr\<close>, and \<open>Some up\<close> is the node reached from the root along the
  edges of \<open>up\<close>, read from its last element to its first. The first element is the edge
  from the parent to the node, so \<open>parent.lock()\<close> is the tail of the list, the root is
  \<open>[]\<close>, and \<open>parent->right == node\<close> holds exactly when that first edge is \<open>ToRight\<close>.
\<close>

datatype dir = ToLeft | ToRight

type_synonym NodePtr = "dir list option"

fun descend :: "Node \<Rightarrow> dir list \<Rightarrow> Node" where
  "descend n [] = n"
| "descend Null (e # es) = Null"
| "descend (Node l r mp nd) (ToLeft # es) = descend l es"
| "descend (Node l r mp nd) (ToRight # es) = descend r es"

definition node_at :: "Node \<Rightarrow> NodePtr \<Rightarrow> Node" where
  "node_at rt node = (case node of None \<Rightarrow> Null | Some up \<Rightarrow> descend rt (rev up))"

text \<open>\<open>PointSet::left\<close> (lines 436-442): follow \<open>left\<close> links while there is one.\<close>

fun left_from :: "Node \<Rightarrow> dir list \<Rightarrow> dir list" where
  "left_from Null up = up"
| "left_from (Node l r mp nd) up = (if l \<noteq> Null then left_from l (ToLeft # up) else up)"

definition PointSet_left :: "Node \<Rightarrow> NodePtr \<Rightarrow> NodePtr" where
  "PointSet_left rt node =
     (case node of None \<Rightarrow> None | Some up \<Rightarrow> Some (left_from (node_at rt node) up))"

text \<open>
  The loop of \<open>next\<close> (lines 421-425): while the node is the right child of its parent,
  move to the parent and set \<open>isRight\<close>. The result is the node reached and \<open>isRight\<close>.
\<close>

fun climb :: "dir list \<Rightarrow> bool \<Rightarrow> dir list \<times> bool" where
  "climb (ToRight # up) isRight = climb up True"
| "climb up isRight = (up, isRight)"

text \<open>
  \<open>PointSet::next\<close> (lines 411-434); \<open>next_above\<close> is its part for a node without a
  right child (lines 419-433). The local \<open>isRight\<close> is declared without an initialiser
  (line 419) and is read at line 426 when the loop has not run and the node is the root.
  \<open>isRight0\<close> is the value that read yields. A pointer to no node does not occur in the
  source; the model answers \<open>nullptr\<close> for it.
\<close>

definition next_above :: "dir list \<Rightarrow> bool \<Rightarrow> NodePtr" where
  "next_above up isRight0 =
     (let (up', isRight) = climb up isRight0 in
      if up' = [] \<and> isRight then None
      else (case up' of [] \<Rightarrow> Some up' | e # parent \<Rightarrow> Some parent))"

definition PointSet_next :: "bool \<Rightarrow> Node \<Rightarrow> NodePtr \<Rightarrow> NodePtr" where
  "PointSet_next isRight0 rt node =
     (case node of
        None \<Rightarrow> None
      | Some up \<Rightarrow>
          (case node_at rt node of
             Null \<Rightarrow> None
           | Node l r mp nd \<Rightarrow>
               if r \<noteq> Null then PointSet_left rt (Some (ToRight # up))
               else next_above up isRight0))"

definition root_ptr :: "PointSet \<Rightarrow> NodePtr" where
  "root_ptr s = (if m_root s = Null then None else Some [])"

definition PointSet_begin :: "PointSet \<Rightarrow> NodePtr" where
  "PointSet_begin s = PointSet_left (m_root s) (root_ptr s)"

definition PointSet_end :: NodePtr where
  "PointSet_end = None"

text \<open>\<open>iterator::operator*\<close> on a node iterator (primitives.h line 217).\<close>

definition deref :: "Node \<Rightarrow> NodePtr \<Rightarrow> error + Point" where
  "deref rt it =
     (case node_at rt it of
        Null \<Rightarrow> Inl NullPointerDereference
      | Node l r mp nd \<Rightarrow> Inr mp)"

text \<open>
  The loop \<open>for (auto it = first; it != last; it++) body(*it)\<close> over node iterators, with
  the variables the body updates in \<open>acc\<close>. The result is \<open>None\<close> when the loop never
  ends.
\<close>

partial_function (option) for_each ::
  "bool \<Rightarrow> Node \<Rightarrow> (Point \<Rightarrow> 'a \<Rightarrow> 'a) \<Rightarrow> NodePtr \<Rightarrow> NodePtr \<Rightarrow> 'a \<Rightarrow> (error + 'a) option" where
  "for_each isRight0 rt body it stop acc =
     (if it = stop then Some (Inr acc)
      else (case deref rt it of
              Inl e \<Rightarrow> Some (Inl e)
            | Inr p \<Rightarrow>
                for_each isRight0 rt body (PointSet_next isRight0 rt it) stop (body p acc)))"

text \<open>
  A pair of iterators as the queries return it: two node iterators into the live tree, or
  the first and past-the-end iterators of a vector the query filled.
\<close>

datatype iterator_pair = TreeRange NodePtr NodePtr | VectorRange "Point list"

text \<open>The sequence a caller reads from a pair by \<open>for (it = first; it != second; ++it)\<close>.\<close>

definition range_points :: "bool \<Rightarrow> PointSet \<Rightarrow> iterator_pair \<Rightarrow> (error + Point list) option" where
  "range_points isRight0 s pr =
     (case pr of
        VectorRange v \<Rightarrow> Some (Inr v)
      | TreeRange first second \<Rightarrow>
          for_each isRight0 (m_root s) (\<lambda>p acc. acc @ [p]) first second [])"

subsection \<open>Bulk build, rebuild and \<open>put\<close> (lines 197-229, 265-284)\<close>

text \<open>
  \<open>std::nth_element(first, nth, last, comp)\<close> belongs to the C++ library, and the standard
  leaves open which rearrangement of the range it produces. \<open>buildTree\<close> takes it as a
  parameter: a function from the buffer, the three positions and the comparison to the
  buffer after the call.
\<close>

type_synonym nth_element_t =
  "Point list \<Rightarrow> nat \<Rightarrow> nat \<Rightarrow> nat \<Rightarrow> (Point \<Rightarrow> Point \<Rightarrow> bool) \<Rightarrow> Point list"

text \<open>
  What the results below need of \<open>std::nth_element\<close>: it rearranges the elements of
  \<open>[first, last)\<close> and leaves the rest of the buffer as it is.
\<close>

definition rearranges :: "nth_element_t \<Rightarrow> bool" where
  "rearranges nth_element =
     (\<forall>buffer first n stop cmp.
        first \<le> n \<and> n < stop \<and> stop \<le> length buffer \<longrightarrow>
          mset (nth_element buffer first n stop cmp) = mset buffer \<and>
          take first (nth_element buffer first n stop cmp) = take first buffer \<and>
          drop stop (nth_element buffer first n stop cmp) = drop stop buffer)"

text \<open>
  One function \<open>std::nth_element\<close> may be: a stable insertion sort of \<open>[first, last)\<close>.
  It is used to run the build on concrete inputs.
\<close>

fun insert_sorted :: "('a \<Rightarrow> 'a \<Rightarrow> bool) \<Rightarrow> 'a \<Rightarrow> 'a list \<Rightarrow> 'a list" where
  "insert_sorted cmp v [] = [v]"
| "insert_sorted cmp v (w # ws) =
     (if cmp v w then v # w # ws else w # insert_sorted cmp v ws)"

definition nth_element_sort :: nth_element_t where
  "nth_element_sort buffer first n stop cmp =
     take first buffer
       @ foldr (insert_sorted cmp) (take (stop - first) (drop first buffer)) []
       @ drop stop buffer"

text \<open>The comparison \<open>buildTree\<close> passes to \<open>std::nth_element\<close> (lines 223-225).\<close>

definition depth_less :: "nat \<Rightarrow> Point \<Rightarrow> Point \<Rightarrow> bool" where
  "depth_less d lhs rhs =
     (if d mod 2 = 0 then x_coord lhs < x_coord rhs else y_coord lhs < y_coord rhs)"

text \<open>
  \<open>PointSet::buildTree\<close> (lines 216-229) changes the tree and the buffer; the model
  returns both. The source calls it with \<open>start \<le> end \<le> points.size()\<close> only.
\<close>

function buildTree ::
  "nth_element_t \<Rightarrow> PointSet \<times> Point list \<Rightarrow> nat \<Rightarrow> nat \<Rightarrow> nat \<Rightarrow> PointSet \<times> Point list" where
  "buildTree nth_element (tree, points) start end d =
     (if end - start < 1 then (tree, points)
      else
        let middle = (end + start) div 2;
            points1 = nth_element points start middle end (depth_less d);
            tree2 = insert_at_root (points1 ! middle) tree;
            (tree3, points3) = buildTree nth_element (tree2, points1) start middle (d + 1)
        in buildTree nth_element (tree3, points3) (middle + 1) end (d + 1))"
  by pat_completeness auto
termination
  by (relation "measure (\<lambda>(nth_element, tp, start, end, d). end - start)") auto

declare buildTree.simps [simp del]

text \<open>
  The constructor from a file (lines 197-214) parses the points and builds the tree from
  them; the model starts from the parsed points.
\<close>

definition PointSet_of :: "nth_element_t \<Rightarrow> Point list \<Rightarrow> PointSet" where
  "PointSet_of nth_element points =
     fst (buildTree nth_element (empty_PointSet, points) 0 (length points) 0)"

text \<open>
  The test of \<open>reBuild\<close> (line 267), \<open>max_depth > 2 * std::log(m_size)\<close>, in doubles.
  \<open>std::log(0)\<close> is minus infinity, below every depth.
\<close>

definition depth_exceeded :: "nat \<Rightarrow> nat \<Rightarrow> bool" where
  "depth_exceeded md sz = (if sz = 0 then True else real md > 2 * ln (real sz))"

definition reBuild :: "bool \<Rightarrow> nth_element_t \<Rightarrow> PointSet \<Rightarrow> (error + PointSet) option" where
  "reBuild isRight0 nth_element s =
     (if depth_exceeded (max_depth s) (m_size s) then
        (case for_each isRight0 (m_root s)
                (\<lambda>p points. points @ [Point (x_coord p) (y_coord p)])
                (PointSet_begin s) PointSet_end [] of
           None \<Rightarrow> None
         | Some (Inl e) \<Rightarrow> Some (Inl e)
         | Some (Inr points) \<Rightarrow>
             Some (Inr (fst (buildTree nth_element
                               (s\<lparr>m_size := 0, max_depth := 0, m_root := Null\<rparr>, points)
                               0 (length points) 0))))
      else Some (Inr s))"

definition put :: "bool \<Rightarrow> nth_element_t \<Rightarrow> Point \<Rightarrow> PointSet \<Rightarrow> (error + PointSet) option" where
  "put isRight0 nth_element p s =
     reBuild isRight0 nth_element (insert_at_root p s)"

text \<open>A sequence of \<open>put\<close> calls; it stops where one does not return a set.\<close>

fun puts :: "bool \<Rightarrow> nth_element_t \<Rightarrow> Point list \<Rightarrow> PointSet \<Rightarrow> (error + PointSet) option" where
  "puts isRight0 nth_element [] s = Some (Inr s)"
| "puts isRight0 nth_element (p # ps) s =
     (case put isRight0 nth_element p s of
        Some (Inr s') \<Rightarrow> puts isRight0 nth_element ps s'
      | other \<Rightarrow> other)"

text \<open>\<open>PointSet::copyTree\<close> and the copy constructor (lines 444-471).\<close>

fun copyTree :: "Node \<Rightarrow> Node" where
  "copyTree Null = Null"
| "copyTree (Node l r mp nd) =
     (if l = Null \<and> r = Null then Node Null Null mp nd
      else Node (copyTree l) (copyTree r) mp nd)"

definition PointSet_copy :: "PointSet \<Rightarrow> PointSet" where
  "PointSet_copy s = \<lparr>max_depth = max_depth s, m_root = copyTree (m_root s), m_size = m_size s\<rparr>"

subsection \<open>k nearest neighbours (lines 374-396)\<close>

text \<open>
  \<open>std::max_element(first, last, comp)\<close>: the position of the largest element, where a
  later element replaces the largest so far when \<open>comp(largest, element)\<close> holds.
\<close>

function max_element_loop :: "'a list \<Rightarrow> ('a \<Rightarrow> 'a \<Rightarrow> bool) \<Rightarrow> nat \<Rightarrow> nat \<Rightarrow> nat" where
  "max_element_loop v cmp largest first =
     (if first < length v
      then max_element_loop v cmp (if cmp (v ! largest) (v ! first) then first else largest)
             (first + 1)
      else largest)"
  by pat_completeness auto
termination
  by (relation "measure (\<lambda>(v, cmp, largest, first). length v - first)") auto

declare max_element_loop.simps [simp del]

definition max_element :: "'a list \<Rightarrow> ('a \<Rightarrow> 'a \<Rightarrow> bool) \<Rightarrow> nat" where
  "max_element v cmp = (if v = [] then 0 else max_element_loop v cmp 0 1)"

text \<open>The body of the loop of \<open>nearest(p, k)\<close> (lines 385-393).\<close>

definition nearest_step :: "Point \<Rightarrow> nat \<Rightarrow> Point \<Rightarrow> Point list \<Rightarrow> Point list" where
  "nearest_step p k pt neighbours =
     (if length neighbours < k then neighbours @ [pt]
      else
        let max_distanced =
              max_element neighbours (\<lambda>lhs rhs. double_le (distance lhs p) (distance rhs p))
        in if double_less (distance pt p) (distance (neighbours ! max_distanced) p)
           then neighbours[max_distanced := pt]
           else neighbours)"

definition nearest_k :: "bool \<Rightarrow> PointSet \<Rightarrow> Point \<Rightarrow> nat \<Rightarrow> (error + iterator_pair) option" where
  "nearest_k isRight0 s p k =
     (if k \<ge> m_size s then Some (Inr (TreeRange (PointSet_begin s) PointSet_end))
      else if k = 0 then Some (Inr (TreeRange (PointSet_begin s) (PointSet_begin s)))
      else
        (case for_each isRight0 (m_root s) (nearest_step p k) (PointSet_begin s) PointSet_end [] of
           None \<Rightarrow> None
         | Some (Inl e) \<Rightarrow> Some (Inl e)
         | Some (Inr neighbours) \<Rightarrow> Some (Inr (VectorRange neighbours))))"

subsection \<open>The nodes in a store\<close>

text \<open>
  The nodes as the source holds them: cells in a store, with the addresses of the left
  child, the right child and the parent (\<open>None\<close> is \<open>nullptr\<close>). An address is an index
  into the list of cells, and \<open>make_shared\<close> appends a cell. \<open>insert_store\<close>,
  \<open>left_store\<close> and \<open>next_store\<close> are \<open>insert\<close>, \<open>left\<close> and \<open>next\<close> of the source on
  this store, with the assignments to \<open>left\<close>, \<open>right\<close> and \<open>parent\<close> of lines 255-260 and
  the comparisons of pointers of lines 421 and 426. They follow links of the store, so
  they are partial functions. The last section proves that on the stores the program
  builds they compute what \<open>insert_node\<close>, \<open>PointSet_left\<close> and \<open>PointSet_next\<close>
  compute on the tree and on paths.
\<close>

record cell =
  cell_left :: "nat option"
  cell_right :: "nat option"
  cell_parent :: "nat option"
  cell_point :: Point
  cell_depth :: nat

record PointSet_store =
  cells :: "cell list"
  st_max_depth :: nat
  st_root :: "nat option"
  st_size :: nat

definition new_cell :: "Point \<Rightarrow> nat \<Rightarrow> cell" where
  "new_cell point d =
     \<lparr>cell_left = None, cell_right = None, cell_parent = None, cell_point = point, cell_depth = d\<rparr>"

text \<open>\<open>node->left = b; node->left->parent = node\<close> (lines 255-256), and the same on the right.\<close>

definition link_left :: "nat \<Rightarrow> nat \<Rightarrow> cell list \<Rightarrow> cell list" where
  "link_left a b h =
     (let h1 = h[a := (h ! a)\<lparr>cell_left := Some b\<rparr>] in h1[b := (h1 ! b)\<lparr>cell_parent := Some a\<rparr>])"

definition link_right :: "nat \<Rightarrow> nat \<Rightarrow> cell list \<Rightarrow> cell list" where
  "link_right a b h =
     (let h1 = h[a := (h ! a)\<lparr>cell_right := Some b\<rparr>] in h1[b := (h1 ! b)\<lparr>cell_parent := Some a\<rparr>])"

text \<open>\<open>PointSet::insert\<close> (lines 241-263) on the store.\<close>

partial_function (option) insert_store ::
  "Point \<Rightarrow> nat option \<Rightarrow> nat \<Rightarrow> PointSet_store \<Rightarrow> (nat \<times> PointSet_store) option" where
  "insert_store point node d ps =
     (let ps1 = ps\<lparr>st_max_depth := max (st_max_depth ps) d\<rparr> in
      case node of
        None \<Rightarrow>
          Some (length (cells ps1),
                ps1\<lparr>cells := cells ps1 @ [new_cell point d], st_size := st_size ps1 + 1\<rparr>)
      | Some a \<Rightarrow>
          if Point_eq (cell_point (cells ps1 ! a)) point then Some (a, ps1)
          else if toLeft (cell_depth (cells ps1 ! a)) point (cell_point (cells ps1 ! a)) then
            Option.bind (insert_store point (cell_left (cells ps1 ! a)) (d + 1) ps1)
              (\<lambda>(b, ps2). Some (a, ps2\<lparr>cells := link_left a b (cells ps2)\<rparr>))
          else
            Option.bind (insert_store point (cell_right (cells ps1 ! a)) (d + 1) ps1)
              (\<lambda>(b, ps2). Some (a, ps2\<lparr>cells := link_right a b (cells ps2)\<rparr>)))"

text \<open>\<open>m_root = insert(p, m_root, 0)\<close> on the store.\<close>

definition insert_at_root_store :: "Point \<Rightarrow> PointSet_store \<Rightarrow> PointSet_store option" where
  "insert_at_root_store p ps =
     Option.bind (insert_store p (st_root ps) 0 ps) (\<lambda>(b, ps'). Some (ps'\<lparr>st_root := Some b\<rparr>))"

text \<open>\<open>PointSet::left\<close> (lines 436-442) on the store.\<close>

partial_function (option) left_store :: "cell list \<Rightarrow> nat option \<Rightarrow> nat option option" where
  "left_store h node =
     (case node of
        None \<Rightarrow> Some None
      | Some a \<Rightarrow>
          (case cell_left (h ! a) of
             None \<Rightarrow> Some node
           | Some b \<Rightarrow> left_store h (Some b)))"

text \<open>
  The loop of \<open>next\<close> (lines 421-425) on the store: \<open>node\<close>, \<open>parent\<close> and \<open>isRight\<close> are the
  variables of the source.
\<close>

partial_function (option) climb_store ::
  "cell list \<Rightarrow> nat \<Rightarrow> nat option \<Rightarrow> bool \<Rightarrow> (nat \<times> bool) option" where
  "climb_store h node parent isRight =
     (case parent of
        None \<Rightarrow> Some (node, isRight)
      | Some pa \<Rightarrow>
          if cell_right (h ! pa) = Some node
          then climb_store h pa (cell_parent (h ! pa)) True
          else Some (node, isRight))"

text \<open>\<open>PointSet::next\<close> (lines 411-434) on the store.\<close>

definition next_store :: "bool \<Rightarrow> cell list \<Rightarrow> nat option \<Rightarrow> nat option \<Rightarrow> nat option option" where
  "next_store isRight0 h rt node =
     (case node of
        None \<Rightarrow> Some None
      | Some a \<Rightarrow>
          (case cell_right (h ! a) of
             Some r \<Rightarrow> left_store h (Some r)
           | None \<Rightarrow>
               Option.bind (climb_store h a (cell_parent (h ! a)) isRight0)
                 (\<lambda>(n, isRight).
                    if Some n = rt \<and> isRight then Some None
                    else (case cell_parent (h ! n) of
                            Some pa \<Rightarrow> Some (Some pa)
                          | None \<Rightarrow> Some (Some n)))))"

section \<open>Notions the properties are stated with\<close>

text \<open>The recursive in-order walk (left subtree, the node, right subtree).\<close>

fun inorder_walk :: "Node \<Rightarrow> Point list" where
  "inorder_walk Null = []"
| "inorder_walk (Node l r mp nd) = inorder_walk l @ [mp] @ inorder_walk r"

text \<open>
  The Euclidean distance of two points in exact arithmetic, which \<open>Point::distance\<close>
  computes in doubles.
\<close>

definition euclidean :: "Point \<Rightarrow> Point \<Rightarrow> real" where
  "euclidean p q = sqrt ((x_coord p - x_coord q)\<^sup>2 + (y_coord p - y_coord q)\<^sup>2)"

text \<open>
  Where a double lies on the real line, the infinities lying at \<open>2^1024\<close> and \<open>-2^1024\<close>,
  beyond every finite double. The doubles that the comparisons order by it are the
  \<open>ordinary\<close> ones: every double but NaN (a finite value of a double is below \<open>2^1024\<close> in
  absolute value).
\<close>

definition double_value :: "double \<Rightarrow> real" where
  "double_value d =
     (case d of Finite v \<Rightarrow> v | PlusInfinity \<Rightarrow> overflow | MinusInfinity \<Rightarrow> - overflow | NaN \<Rightarrow> 0)"

definition ordinary :: "double \<Rightarrow> bool" where
  "ordinary d = (case d of Finite v \<Rightarrow> \<bar>v\<bar> < overflow | NaN \<Rightarrow> False | _ \<Rightarrow> True)"

text \<open>
  The place of \<open>round_to_double x\<close> on the real line, and the places of the rounded square
  root and of the result of \<open>Point::distance\<close> in terms of the places of the operands.
\<close>

definition rounded :: "real \<Rightarrow> real" where
  "rounded x = max (- overflow) (min overflow (round_real x))"

definition rounded_sqrt :: "real \<Rightarrow> real" where
  "rounded_sqrt t = (if overflow \<le> t then overflow else rounded (sqrt t))"

definition rounded_norm :: "real \<Rightarrow> real \<Rightarrow> real" where
  "rounded_norm A B = rounded_sqrt (rounded (rounded (A\<^sup>2) + rounded (B\<^sup>2)))"

text \<open>The split coordinate at depth \<open>d\<close>: x when \<open>d\<close> is even, y when it is odd.\<close>

definition split_coord :: "nat \<Rightarrow> Point \<Rightarrow> real" where
  "split_coord d p = (if d mod 2 = 0 then x_coord p else y_coord p)"

text \<open>
  The partition invariant for a subtree whose root lies at depth \<open>d\<close> of the tree: at
  every node, the points of the left subtree are at most the node's point in the split
  coordinate of the node's depth, and the points of the right subtree are greater.
\<close>

fun partitioned :: "nat \<Rightarrow> Node \<Rightarrow> bool" where
  "partitioned d Null = True"
| "partitioned d (Node l r mp nd) =
     ((\<forall>q \<in> set (inorder_walk l). split_coord d q \<le> split_coord d mp) \<and>
      (\<forall>q \<in> set (inorder_walk r). split_coord d mp < split_coord d q) \<and>
      partitioned (d + 1) l \<and> partitioned (d + 1) r)"

text \<open>Every node stores its depth below the root in its \<open>depth\<close> field.\<close>

fun depths_from :: "nat \<Rightarrow> Node \<Rightarrow> bool" where
  "depths_from d Null = True"
| "depths_from d (Node l r mp nd) = (nd = d \<and> depths_from (d + 1) l \<and> depths_from (d + 1) r)"

text \<open>
  The trees on which the walk from \<open>begin()\<close> gets past the root: \<open>next\<close> reads
  \<open>isRight\<close> uninitialised exactly when it is called on a root without a right child,
  and leaves the tree there only if the value read is true.
\<close>

definition reaches_end :: "bool \<Rightarrow> Node \<Rightarrow> bool" where
  "reaches_end isRight0 rt = (case rt of Null \<Rightarrow> True | Node l r mp nd \<Rightarrow> isRight0 \<or> r \<noteq> Null)"

text \<open>
  A set whose tree is partitioned, whose nodes store their depths, and whose \<open>m_size\<close>
  counts the nodes.
\<close>

definition well_formed :: "PointSet \<Rightarrow> bool" where
  "well_formed s =
     (partitioned 0 (m_root s) \<and> depths_from 0 (m_root s) \<and>
      m_size s = length (inorder_walk (m_root s)))"

text \<open>
  The sets a program can reach: built from a file's points, changed by \<open>put\<close>, copied.
\<close>

inductive reachable :: "bool \<Rightarrow> nth_element_t \<Rightarrow> PointSet \<Rightarrow> bool"
  for isRight0 :: bool and nth_element :: nth_element_t where
  built: "reachable isRight0 nth_element (PointSet_of nth_element points)"
| after_put: "reachable isRight0 nth_element s \<Longrightarrow> put isRight0 nth_element p s = Some (Inr s')
     \<Longrightarrow> reachable isRight0 nth_element s'"
| copied: "reachable isRight0 nth_element s \<Longrightarrow> reachable isRight0 nth_element (PointSet_copy s)"

text \<open>
  A set of points in which epsilon-equality is equality: two points of it that
  \<open>operator==\<close> identifies are the same point.
\<close>

definition separated :: "Point set \<Rightarrow> bool" where
  "separated U = (\<forall>a \<in> U. \<forall>b \<in> U. Point_eq a b \<longrightarrow> a = b)"

text \<open>
  No other point of \<open>U\<close> is epsilon-equal to \<open>p\<close>: \<open>operator==\<close> identifies a point of \<open>U\<close>
  with \<open>p\<close> only if it is \<open>p\<close>.
\<close>

definition isolated :: "Point \<Rightarrow> Point set \<Rightarrow> bool" where
  "isolated p U = (\<forall>r \<in> U. Point_eq r p \<longrightarrow> r = p)"

text \<open>The greatest \<open>depth\<close> field of a tree, 0 for the tree with no node.\<close>

fun deepest :: "Node \<Rightarrow> nat" where
  "deepest Null = 0"
| "deepest (Node l r mp nd) = max nd (max (deepest l) (deepest r))"

text \<open>
  A store holds the tree \<open>t\<close> at the address \<open>ptr\<close>: the cells reached from \<open>ptr\<close> have
  the points, depths and shape of \<open>t\<close>, and the parent link of every child is the address
  of the cell that links to it. \<open>addrs\<close> lists the addresses of these cells in order.
\<close>

fun linked :: "cell list \<Rightarrow> nat option \<Rightarrow> Node \<Rightarrow> bool" where
  "linked h ptr Null = (ptr = None)"
| "linked h ptr (Node l r mp nd) =
     (case ptr of
        None \<Rightarrow> False
      | Some a \<Rightarrow>
          a < length h \<and> cell_point (h ! a) = mp \<and> cell_depth (h ! a) = nd \<and>
          linked h (cell_left (h ! a)) l \<and> linked h (cell_right (h ! a)) r \<and>
          (case cell_left (h ! a) of None \<Rightarrow> True | Some b \<Rightarrow> cell_parent (h ! b) = Some a) \<and>
          (case cell_right (h ! a) of None \<Rightarrow> True | Some b \<Rightarrow> cell_parent (h ! b) = Some a))"

fun addrs :: "cell list \<Rightarrow> nat option \<Rightarrow> Node \<Rightarrow> nat list" where
  "addrs h ptr Null = []"
| "addrs h ptr (Node l r mp nd) =
     (case ptr of
        None \<Rightarrow> []
      | Some a \<Rightarrow> addrs h (cell_left (h ! a)) l @ [a] @ addrs h (cell_right (h ! a)) r)"

text \<open>The address of the node a path leads to, and the address a \<open>NodePtr\<close> stands for.\<close>

fun addr_at :: "cell list \<Rightarrow> nat option \<Rightarrow> dir list \<Rightarrow> nat option" where
  "addr_at h p [] = p"
| "addr_at h None (e # es) = None"
| "addr_at h (Some a) (ToLeft # es) = addr_at h (cell_left (h ! a)) es"
| "addr_at h (Some a) (ToRight # es) = addr_at h (cell_right (h ! a)) es"

definition ptr_of :: "cell list \<Rightarrow> nat option \<Rightarrow> NodePtr \<Rightarrow> nat option" where
  "ptr_of h rt node = (case node of None \<Rightarrow> None | Some up \<Rightarrow> addr_at h rt (rev up))"

text \<open>What a call of \<open>insert_store\<close> at \<open>ptr\<close> leaves behind, and when a store is a set.\<close>

definition counters_agree :: "PointSet_store \<Rightarrow> PointSet \<Rightarrow> bool" where
  "counters_agree ps s = (st_max_depth ps = max_depth s \<and> st_size ps = m_size s)"

definition insert_store_post ::
  "PointSet_store \<Rightarrow> nat option \<Rightarrow> Node \<Rightarrow> nat \<Rightarrow> PointSet_store \<Rightarrow> Node \<Rightarrow> bool" where
  "insert_store_post ps ptr t b ps' t' =
     (linked (cells ps') (Some b) t' \<and>
      distinct (addrs (cells ps') (Some b) t') \<and>
      set (addrs (cells ps') (Some b) t') \<subseteq> set (addrs (cells ps) ptr t) \<union> {length (cells ps)} \<and>
      length (cells ps) \<le> length (cells ps') \<and>
      (\<forall>x < length (cells ps). x \<notin> set (addrs (cells ps) ptr t) \<longrightarrow> cells ps' ! x = cells ps ! x) \<and>
      (case ptr of
         Some a \<Rightarrow> b = a \<and> cell_parent (cells ps' ! a) = cell_parent (cells ps ! a)
       | None \<Rightarrow> b = length (cells ps) \<and> cell_parent (cells ps' ! b) = None) \<and>
      st_root ps' = st_root ps)"

definition represents :: "PointSet_store \<Rightarrow> PointSet \<Rightarrow> bool" where
  "represents ps s =
     (linked (cells ps) (st_root ps) (m_root s) \<and>
      distinct (addrs (cells ps) (st_root ps) (m_root s)) \<and>
      (case st_root ps of None \<Rightarrow> True | Some a \<Rightarrow> cell_parent (cells ps ! a) = None) \<and>
      st_max_depth ps = max_depth s \<and> st_size ps = m_size s)"

definition empty_store :: PointSet_store where
  "empty_store = \<lparr>cells = [], st_max_depth = 0, st_root = None, st_size = 0\<rparr>"

section \<open>The geometric primitives\<close>

lemma eps_pos: "0 < eps"
  by (simp add: eps_def)

text \<open>
  C10. For a point whose x lies outside \<open>[xmin, xmax]\<close>, \<open>Rect::distance\<close> is the smaller
  of the distances of x to \<open>xmin\<close> and to \<open>xmax\<close>, whatever y is; so for every bound
  \<open>M\<close> there is a point more than \<open>M\<close> above the rectangle, with x within epsilon of
  \<open>xmin\<close>, that \<open>Rect::contains\<close> accepts.
\<close>

theorem Rect_distance_outside_x:
  "(x_coord p < xmin r \<or> xmax r < x_coord p \<longrightarrow>
      Rect_distance r p = min \<bar>x_coord p - xmin r\<bar> \<bar>x_coord p - xmax r\<bar>) \<and>
   (\<exists>q. \<bar>x_coord q - xmin r\<bar> < eps \<and> ymax r + M < y_coord q \<and> ymin r + M < y_coord q \<and>
        Rect_contains r q)"
proof
  show "x_coord p < xmin r \<or> xmax r < x_coord p \<longrightarrow>
      Rect_distance r p = min \<bar>x_coord p - xmin r\<bar> \<bar>x_coord p - xmax r\<bar>"
    by (auto simp: Rect_distance_def)
next
  define q where "q = Point (xmin r - eps / 2) (max (ymin r) (ymax r) + \<bar>M\<bar> + 1)"
  have outside: "x_coord q < xmin r"
    using eps_pos by (simp add: q_def)
  then have "Rect_distance r q = min \<bar>x_coord q - xmin r\<bar> \<bar>x_coord q - xmax r\<bar>"
    by (auto simp: Rect_distance_def)
  moreover have near: "\<bar>x_coord q - xmin r\<bar> = eps / 2"
    using eps_pos by (simp add: q_def)
  ultimately have "\<bar>Rect_distance r q\<bar> \<le> eps / 2"
    using eps_pos by (auto simp: min_def)
  then have "Rect_contains r q"
    using eps_pos by (simp add: Rect_contains_def)
  moreover have "ymax r + M < y_coord q" "ymin r + M < y_coord q"
    by (simp_all add: q_def)
  moreover have "\<bar>x_coord q - xmin r\<bar> < eps"
    using near eps_pos by simp
  ultimately show "\<exists>q. \<bar>x_coord q - xmin r\<bar> < eps \<and> ymax r + M < y_coord q \<and>
      ymin r + M < y_coord q \<and> Rect_contains r q"
    by blast
qed

theorem Rect_distance_outside_x_witness:
  "Rect_distance (Rect (Point 0 0) (Point 1 1)) (Point (- 1) 1000) = 1 \<and>
   (\<exists>q. \<bar>x_coord q - 0\<bar> < eps \<and> 1 + 1000 < y_coord q \<and> 0 + 1000 < y_coord q \<and>
        Rect_contains (Rect (Point 0 0) (Point 1 1)) q)"
  using Rect_distance_outside_x [of "Point (- 1) 1000" "Rect (Point 0 0) (Point 1 1)" 1000]
  by (simp add: xmin_def xmax_def ymin_def ymax_def)

section \<open>Nearest neighbour on the empty set\<close>

text \<open>
  C1. On the empty set \<open>nearest(q)\<close> does not return an absent optional: it dereferences
  the null root. On no set at all does it return an absent optional.
\<close>

theorem nearest_empty_null_dereference:
  "nearest empty_PointSet q = Inl NullPointerDereference \<and> nearest s q \<noteq> Inr None"
  by (simp add: nearest_def empty_PointSet_def split: Node.split)

section \<open>Iteration over the tree\<close>

lemma descend_Null [simp]: "descend Null es = Null"
  by (cases es) auto

lemma descend_append: "descend t (a @ b) = descend (descend t a) b"
  by (induction t a rule: descend.induct) auto

lemma node_at_child:
  "node_at rt (Some up) = Node l r mp nd \<Longrightarrow>
   node_at rt (Some (ToLeft # up)) = l \<and> node_at rt (Some (ToRight # up)) = r"
  by (simp add: node_at_def descend_append)

lemma next_above_simps [simp]:
  "next_above (ToRight # up) b = next_above up True"
  "next_above (ToLeft # up) b = Some up"
  "next_above [] b = (if b then None else Some [])"
  by (simp_all add: next_above_def)

lemma for_each_stop [simp]: "for_each ir rt body it it acc = Some (Inr acc)"
  by (subst for_each.simps) simp

lemma for_each_step:
  "node_at rt (Some up) = Node l r mp nd \<Longrightarrow>
   for_each ir rt body (Some up) None acc =
     for_each ir rt body
       (if r \<noteq> Null then Some (left_from r (ToRight # up)) else next_above up ir)
       None (body mp acc)"
  apply (subst for_each.simps)
  apply (frule node_at_child)
  apply (simp add: deref_def PointSet_next_def PointSet_left_def)
  done

lemma for_each_subtree:
  "node_at rt (Some pre) = t \<Longrightarrow> t \<noteq> Null \<Longrightarrow>
   for_each ir rt body (Some (left_from t pre)) None acc =
     for_each ir rt body (next_above pre (ir \<or> right t \<noteq> Null)) None
       (foldl (\<lambda>a p. body p a) acc (inorder_walk t))"
proof (induction t arbitrary: pre acc)
  case Null
  then show ?case by simp
next
  case (Node l r mp nd)
  have at: "node_at rt (Some pre) = Node l r mp nd" using Node.prems by simp
  note ch = node_at_child [OF at]
  define acc1 where "acc1 = foldl (\<lambda>a p. body p a) acc (inorder_walk l)"
  have A: "for_each ir rt body (Some (left_from (Node l r mp nd) pre)) None acc =
           for_each ir rt body (Some pre) None acc1"
  proof (cases "l = Null")
    case True
    then show ?thesis by (simp add: acc1_def)
  next
    case False
    then show ?thesis
      using Node.IH(1) [of "ToLeft # pre" acc] ch by (simp add: acc1_def)
  qed
  have B: "for_each ir rt body (Some pre) None acc1 =
           for_each ir rt body
             (if r \<noteq> Null then Some (left_from r (ToRight # pre)) else next_above pre ir)
             None (body mp acc1)"
    by (rule for_each_step [OF at])
  have C: "for_each ir rt body
             (if r \<noteq> Null then Some (left_from r (ToRight # pre)) else next_above pre ir)
             None (body mp acc1) =
           for_each ir rt body (next_above pre (ir \<or> r \<noteq> Null)) None
             (foldl (\<lambda>a p. body p a) (body mp acc1) (inorder_walk r))"
  proof (cases "r = Null")
    case True
    then show ?thesis by simp
  next
    case False
    then show ?thesis
      using Node.IH(2) [of "ToRight # pre" "body mp acc1"] ch by simp
  qed
  show ?case
    unfolding A B C by (simp add: acc1_def)
qed

lemma for_each_all:
  "ir \<or> m_root s = Null \<or> right (m_root s) \<noteq> Null \<Longrightarrow>
   for_each ir (m_root s) body (PointSet_begin s) PointSet_end acc =
     Some (Inr (foldl (\<lambda>a p. body p a) acc (inorder_walk (m_root s))))"
proof (cases "m_root s = Null")
  case True
  then show ?thesis
    by (simp add: PointSet_begin_def PointSet_end_def root_ptr_def PointSet_left_def)
next
  case False
  assume h: "ir \<or> m_root s = Null \<or> right (m_root s) \<noteq> Null"
  have at: "node_at (m_root s) (Some []) = m_root s" by (simp add: node_at_def)
  have "PointSet_begin s = Some (left_from (m_root s) [])"
    using False by (simp add: PointSet_begin_def root_ptr_def PointSet_left_def at)
  then show ?thesis
    using for_each_subtree [OF at False, of ir body acc] h False
    by (simp add: PointSet_end_def)
qed


lemma for_each_root_loops:
  assumes "m_root s = Node l Null mp nd"
  shows "for_each False (m_root s) body (Some []) None (acc :: 'a) = None"
proof -
  have step: "PointSet_next False (m_root s) (Some []) = Some []"
    using assms by (simp add: PointSet_next_def node_at_def)
  have never: "ir = False \<longrightarrow> rt = m_root s \<longrightarrow> it = Some [] \<longrightarrow> stp = None \<longrightarrow> False"
    if "for_each ir rt bd it stp a = Some y" for ir rt bd it stp and a :: 'a and y
  proof (rule for_each.raw_induct [where P = "\<lambda>ir rt bd it stp a y.
            ir = False \<longrightarrow> rt = m_root s \<longrightarrow> it = Some [] \<longrightarrow> stp = None \<longrightarrow> False", OF _ that])
    fix f :: "bool \<Rightarrow> Node \<Rightarrow> (Point \<Rightarrow> 'a \<Rightarrow> 'a) \<Rightarrow> NodePtr \<Rightarrow> NodePtr \<Rightarrow> 'a \<Rightarrow> (error + 'a) option"
      and ir rt bd it stp a y
    assume IH: "\<And>ir rt bd it stp a y. f ir rt bd it stp a = Some y \<Longrightarrow>
             ir = False \<longrightarrow> rt = m_root s \<longrightarrow> it = Some [] \<longrightarrow> stp = None \<longrightarrow> False"
      and eq: "(if it = stp then Some (Inr a)
                else case deref rt it of Inl e \<Rightarrow> Some (Inl e)
                     | Inr p \<Rightarrow> f ir rt bd (PointSet_next ir rt it) stp (bd p a)) = Some y"
    show "ir = False \<longrightarrow> rt = m_root s \<longrightarrow> it = Some [] \<longrightarrow> stp = None \<longrightarrow> False"
    proof (intro impI)
      assume h: "ir = False" "rt = m_root s" "it = Some []" "stp = None"
      have "deref rt it = Inr mp" using h assms by (simp add: deref_def node_at_def)
      with eq h step have "f False (m_root s) bd (Some []) None (bd mp a) = Some y" by simp
      from IH [OF this] show False by simp
    qed
  qed
  show ?thesis
  proof (cases "for_each False (m_root s) body (Some []) None acc")
    case None then show ?thesis .
  next
    case (Some y) from never [OF this] show ?thesis by simp
  qed
qed

section \<open>Insertion\<close>

lemma Point_eq_refl [simp]: "Point_eq p p"
  by (simp add: Point_eq_def eps_def)

lemma toLeft_split: "toLeft d p mp = (split_coord d p \<le> split_coord d mp)"
  by (simp add: toLeft_def split_coord_def)

lemma insert_node_mset:
  "mset (inorder_walk (fst (insert_node p t d s))) =
     mset (inorder_walk t) + (if find_node p t = Null then {#p#} else {#})"
  by (induction p t d s rule: insert_node.induct)
     (auto simp: Let_def split: prod.splits)

lemma insert_node_set:
  "set (inorder_walk (fst (insert_node p t d s))) =
     set (inorder_walk t) \<union> (if find_node p t = Null then {p} else {})"
  using insert_node_mset [of p t d s, THEN arg_cong, of set_mset]
  by (simp split: if_splits)

lemma insert_node_size:
  "m_size (snd (insert_node p t d s)) = m_size s + (if find_node p t = Null then 1 else 0)"
  by (induction p t d s rule: insert_node.induct)
     (auto simp: Let_def split: prod.splits)

lemma insert_node_depths:
  "depths_from d t \<Longrightarrow> depths_from d (fst (insert_node p t d s))"
  by (induction p t d s rule: insert_node.induct)
     (auto simp: Let_def split: prod.splits)

lemma insert_node_points:
  "insert_node p t d s = (t', s') \<Longrightarrow> q \<in> set (inorder_walk t') \<Longrightarrow>
   q = p \<or> q \<in> set (inorder_walk t)"
  using insert_node_set [of p t d s] by (auto split: if_splits)

lemma insert_node_partitioned:
  "depths_from d t \<Longrightarrow> partitioned d t \<Longrightarrow> partitioned d (fst (insert_node p t d s))"
proof (induction p t d s rule: insert_node.induct)
  case (1 point d s)
  then show ?case by simp
next
  case (2 point l r mp nd d s)
  then show ?case
    by (auto simp: Let_def toLeft_split split: prod.splits if_splits dest: insert_node_points)
qed

lemma find_node_stored:
  "depths_from d t \<Longrightarrow> partitioned d t \<Longrightarrow> q \<in> set (inorder_walk t) \<Longrightarrow> find_node q t \<noteq> Null"
  by (induction t arbitrary: d) (auto simp: toLeft_split)

lemma find_node_result:
  "find_node p t = Node l r mp nd \<Longrightarrow> Point_eq mp p \<and> mp \<in> set (inorder_walk t)"
  by (induction t) (auto split: if_splits)

lemma find_node_insert_same: "find_node p (fst (insert_node p t d s)) \<noteq> Null"
  by (induction p t d s rule: insert_node.induct)
     (auto simp: Let_def split: prod.splits)

lemma find_node_insert_other:
  "find_node q t \<noteq> Null \<Longrightarrow> find_node q (fst (insert_node p t d s)) \<noteq> Null"
  by (induction p t d s rule: insert_node.induct)
     (auto simp: Let_def split: prod.splits if_splits)

lemma copyTree_id [simp]: "copyTree t = t"
  by (induction t) auto

lemma m_root_insert_at_root:
  "m_root (insert_at_root p s) = fst (insert_node p (m_root s) 0 s)"
  by (simp add: insert_at_root_def split: prod.splits)

lemma m_size_insert_at_root:
  "m_size (insert_at_root p s) = m_size (snd (insert_node p (m_root s) 0 s))"
  by (simp add: insert_at_root_def split: prod.splits)

lemma well_formed_insert_at_root:
  "well_formed s \<Longrightarrow> well_formed (insert_at_root p s)"
  unfolding well_formed_def m_root_insert_at_root m_size_insert_at_root
  using insert_node_mset [of p "m_root s" 0 s, THEN arg_cong, of size]
  by (auto simp: insert_node_partitioned insert_node_depths insert_node_size)

section \<open>Bulk build\<close>

lemma buildTree_invariant:
  assumes step: "\<And>p s. P s \<Longrightarrow> P (insert_at_root p s)"
  shows "P tree \<Longrightarrow> P (fst (buildTree nth_element (tree, points) start end d))"
proof (induction nth_element "(tree, points)" start "end" d arbitrary: tree points
       rule: buildTree.induct)
  case (1 nth_element tree points start "end" d)
  show ?case
  proof (cases "end - start < 1")
    case True
    then show ?thesis using "1.prems" by (subst buildTree.simps) simp
  next
    case False
    define middle where "middle = (end + start) div 2"
    define points1 where "points1 = nth_element points start middle end (depth_less d)"
    define tree2 where "tree2 = insert_at_root (points1 ! middle) tree"
    obtain tree3 points3 where r1:
      "buildTree nth_element (tree2, points1) start middle (d + 1) = (tree3, points3)"
      by (cases "buildTree nth_element (tree2, points1) start middle (d + 1)")
    have P2: "P tree2" unfolding tree2_def by (rule step) (rule "1.prems")
    have P3: "P tree3"
      using "1.hyps"(1) [OF False middle_def points1_def tree2_def P2] r1 by simp
    have "P (fst (buildTree nth_element (tree3, points3) (middle + 1) end (d + 1)))"
      using "1.hyps"(2) [OF False middle_def points1_def tree2_def r1 [symmetric] refl P3] .
    moreover have "buildTree nth_element (tree, points) start end d =
        buildTree nth_element (tree3, points3) (middle + 1) end (d + 1)"
      using False r1
      by (subst buildTree.simps) (simp add: Let_def middle_def points1_def tree2_def)
    ultimately show ?thesis by simp
  qed
qed

lemma split_at_two: "a \<le> b \<Longrightarrow> xs = take a xs @ take (b - a) (drop a xs) @ drop b xs"
proof -
  assume "a \<le> b"
  then have "drop (b - a) (drop a xs) = drop b xs" by simp
  then have "take (b - a) (drop a xs) @ drop b xs = drop a xs"
    by (metis append_take_drop_id)
  then show ?thesis by simp
qed

lemma mset_between:
  assumes "mset xs' = mset xs" "take a xs' = take a xs" "drop b xs' = drop b xs" "a \<le> b"
  shows "mset (take (b - a) (drop a xs')) = mset (take (b - a) (drop a xs))"
proof -
  have "mset xs' = mset (take a xs') + mset (take (b - a) (drop a xs')) + mset (drop b xs')"
    using split_at_two [OF assms(4), of xs', THEN arg_cong, of mset] by simp
  moreover have "mset xs = mset (take a xs) + mset (take (b - a) (drop a xs)) + mset (drop b xs)"
    using split_at_two [OF assms(4), of xs, THEN arg_cong, of mset] by simp
  ultimately show ?thesis using assms(1-3) by simp
qed

lemma between_split:
  assumes "a \<le> m" "m < b" "b \<le> length xs"
  shows "take (b - a) (drop a xs) =
         take (m - a) (drop a xs) @ [xs ! m] @ take (b - (m + 1)) (drop (m + 1) xs)"
proof -
  have "take (b - a) (drop a xs) =
        take (m - a) (drop a xs) @ take (b - a - (m - a)) (drop (m - a) (drop a xs))"
    using assms by (metis add_diff_inverse_nat diff_is_0_eq le_add_diff_inverse less_imp_le_nat not_less take_add diff_le_mono)
  moreover have "drop (m - a) (drop a xs) = xs ! m # drop (m + 1) xs"
    using assms by (simp add: Cons_nth_drop_Suc)
  moreover have "b - a - (m - a) = Suc (b - (m + 1))" using assms by simp
  moreover have "b - m = Suc (b - Suc m)" using assms by simp
  ultimately show ?thesis by simp
qed


lemma rearrangesD:
  assumes "rearranges nth_element" "first \<le> n" "n < stop" "stop \<le> length buffer"
  shows "mset (nth_element buffer first n stop cmp) = mset buffer"
    and "take first (nth_element buffer first n stop cmp) = take first buffer"
    and "drop stop (nth_element buffer first n stop cmp) = drop stop buffer"
  using assms unfolding rearranges_def by blast+

lemma drop_eq_later: "drop a xs = drop a ys \<Longrightarrow> a \<le> b \<Longrightarrow> drop b xs = drop b ys"
  by (metis drop_drop le_add_diff_inverse2)

lemma take_eq_earlier: "take b xs = take b ys \<Longrightarrow> a \<le> b \<Longrightarrow> take a xs = take a ys"
  by (metis min.absorb_iff2 take_take min.commute)

lemma buildTree_fold:
  "rearranges nth_element \<Longrightarrow> start \<le> end \<Longrightarrow> end \<le> length points \<Longrightarrow>
     \<exists>ord points'.
       buildTree nth_element (tree, points) start end d = (fold insert_at_root ord tree, points') \<and>
       mset ord = mset (take (end - start) (drop start points)) \<and>
       mset points' = mset points \<and>
       take start points' = take start points \<and>
       drop end points' = drop end points"
proof (induction nth_element "(tree, points)" start "end" d arbitrary: tree points
       rule: buildTree.induct)
  case (1 nth_element tree points start "end" d)
  note re = "1.prems"(1)
  show ?case
  proof (cases "end - start < 1")
    case True
    then have "buildTree nth_element (tree, points) start end d = (fold insert_at_root [] tree, points)"
      by (subst buildTree.simps) simp
    then show ?thesis using True by auto
  next
    case False
    define middle where "middle = (end + start) div 2"
    define points1 where "points1 = nth_element points start middle end (depth_less d)"
    define tree2 where "tree2 = insert_at_root (points1 ! middle) tree"
    have mid: "start \<le> middle" "middle < end" using False by (auto simp: middle_def)
    have len: "end \<le> length points" by (rule "1.prems"(3))
    note r = rearrangesD [OF re mid len, of "depth_less d", folded points1_def]
    have len1: "length points1 = length points" using r(1) by (rule mset_eq_length)
    have "middle \<le> length points1" using mid len len1 by simp
    from "1.hyps"(1) [OF False middle_def points1_def tree2_def re mid(1) this]
    obtain ord1 points3 where
      b1: "buildTree nth_element (tree2, points1) start middle (d + 1) =
             (fold insert_at_root ord1 tree2, points3)"
      and o1: "mset ord1 = mset (take (middle - start) (drop start points1))"
      and m3: "mset points3 = mset points1"
      and t3: "take start points3 = take start points1"
      and d3: "drop middle points3 = drop middle points1"
      by blast
    have len3: "length points3 = length points1" using m3 by (rule mset_eq_length)
    have le2: "middle + 1 \<le> end" "end \<le> length points3" using mid len len1 len3 by simp_all
    from "1.hyps"(2) [OF False middle_def points1_def tree2_def b1 [symmetric] refl re le2]
    obtain ord2 points4 where
      b2: "buildTree nth_element (fold insert_at_root ord1 tree2, points3) (middle + 1) end (d + 1) =
             (fold insert_at_root ord2 (fold insert_at_root ord1 tree2), points4)"
      and o2: "mset ord2 = mset (take (end - (middle + 1)) (drop (middle + 1) points3))"
      and m4: "mset points4 = mset points3"
      and t4: "take (middle + 1) points4 = take (middle + 1) points3"
      and d4: "drop end points4 = drop end points3"
      by blast
    have whole: "buildTree nth_element (tree, points) start end d =
        (fold insert_at_root (points1 ! middle # ord1 @ ord2) tree, points4)"
      using False b1 b2
      by (subst buildTree.simps) (simp add: Let_def middle_def points1_def tree2_def)
    have later: "drop (middle + 1) points3 = drop (middle + 1) points1"
      using d3 by (rule drop_eq_later) simp
    have "mset (points1 ! middle # ord1 @ ord2) =
          mset (take (middle - start) (drop start points1) @ [points1 ! middle]
                @ take (end - (middle + 1)) (drop (middle + 1) points1))"
      using o1 o2 later by simp
    also have "\<dots> = mset (take (end - start) (drop start points1))"
      using between_split [OF mid, of points1] len len1 by simp
    also have "\<dots> = mset (take (end - start) (drop start points))"
      using mset_between [OF r "1.prems"(2)] .
    finally have ord: "mset (points1 ! middle # ord1 @ ord2) = mset (take (end - start) (drop start points))" .
    have "mset points4 = mset points" using m4 m3 r(1) by simp
    moreover have "take start points4 = take start points"
      using take_eq_earlier [OF t4, of start] mid t3 r(2) by simp
    moreover have "drop end points4 = drop end points"
      using d4 drop_eq_later [OF d3, of "end"] mid r(3) by simp
    ultimately show ?thesis using whole ord by blast
  qed
qed

section \<open>Rebuild and \<open>put\<close>\<close>

lemma for_each_begin_end:
  "for_each ir (m_root s) body (PointSet_begin s) PointSet_end acc =
     (if reaches_end ir (m_root s)
      then Some (Inr (foldl (\<lambda>a p. body p a) acc (inorder_walk (m_root s))))
      else None)"
proof (cases "reaches_end ir (m_root s)")
  case True
  then have "ir \<or> m_root s = Null \<or> right (m_root s) \<noteq> Null"
    by (auto simp: reaches_end_def split: Node.splits)
  from for_each_all [OF this] True show ?thesis by simp
next
  case False
  then obtain l mp nd where rt: "m_root s = Node l Null mp nd" and ir: "\<not> ir"
    by (auto simp: reaches_end_def split: Node.splits)
  have at: "node_at (m_root s) (Some []) = m_root s" by (simp add: node_at_def)
  have "PointSet_begin s = Some (left_from (m_root s) [])"
    using rt by (simp add: PointSet_begin_def root_ptr_def PointSet_left_def node_at_def)
  then have "for_each ir (m_root s) body (PointSet_begin s) PointSet_end acc =
      for_each False (m_root s) body (Some []) None
        (foldl (\<lambda>a p. body p a) acc (inorder_walk (m_root s)))"
    using for_each_subtree [OF at, of ir body acc] rt ir by (simp add: PointSet_end_def)
  then show ?thesis using for_each_root_loops [OF rt] False by simp
qed

lemma foldl_snoc_points:
  "foldl (\<lambda>a p. a @ [p]) acc ps = acc @ ps"
  by (induction ps arbitrary: acc) auto

lemma reset_is_empty:
  "s\<lparr>m_size := 0, max_depth := 0, m_root := Null\<rparr> = empty_PointSet"
  by (simp add: empty_PointSet_def)

lemma reBuild_eq:
  "reBuild ir nth_element s =
     (if depth_exceeded (max_depth s) (m_size s) then
        (if reaches_end ir (m_root s)
         then Some (Inr (PointSet_of nth_element (inorder_walk (m_root s))))
         else None)
      else Some (Inr s))"
  by (simp add: reBuild_def for_each_begin_end foldl_snoc_points reset_is_empty PointSet_of_def)

lemma insert_node_max_depth_le: "max_depth s \<le> max_depth (snd (insert_node p t d s))"
  by (induction p t d s rule: insert_node.induct)
     (auto simp: Let_def split: prod.splits intro: max.coboundedI1 le_trans [OF max.cobounded1])

lemma insert_node_deepest_le: "deepest t \<le> deepest (fst (insert_node p t d s))"
  by (induction p t d s rule: insert_node.induct)
     (auto simp: Let_def split: prod.splits intro: max.coboundedI1 max.coboundedI2)

lemma insert_node_max_depth:
  "depths_from d t \<Longrightarrow>
   max (max_depth (snd (insert_node p t d s))) (deepest t) =
   max (max_depth s) (deepest (fst (insert_node p t d s)))"
proof (induction p t d s rule: insert_node.induct)
  case (1 point d s)
  then show ?case by simp
next
  case (2 point l r mp nd d s)
  define s1 where "s1 = s\<lparr>max_depth := max (max_depth s) d\<rparr>"
  have nd: "nd = d" and dl: "depths_from (d + 1) l" and dr: "depths_from (d + 1) r"
    using "2.prems" by auto
  show ?case
  proof (cases "Point_eq mp point")
    case True
    then show ?thesis by (simp add: nd max.assoc max.left_commute)
  next
    case ne: False
    show ?thesis
    proof (cases "toLeft nd point mp")
      case True
      obtain l' s2 where eq: "insert_node point l (d + 1) s1 = (l', s2)"
        by (cases "insert_node point l (d + 1) s1")
      have h: "max (max_depth s2) (deepest l) = max (max (max_depth s) d) (deepest l')"
        using "2.IH"(1) [OF s1_def ne True dl] unfolding eq by (simp add: s1_def)
      have res: "insert_node point (Node l r mp nd) d s = (Node l' r mp nd, s2)"
        using ne True eq by (simp add: Let_def s1_def)
      have "max (max_depth s2) (max d (max (deepest l) (deepest r))) =
            max (max_depth s) (max d (max (deepest l') (deepest r)))"
        using h by linarith
      then show ?thesis unfolding res by (simp add: nd)
    next
      case False
      obtain r' s2 where eq: "insert_node point r (d + 1) s1 = (r', s2)"
        by (cases "insert_node point r (d + 1) s1")
      have h: "max (max_depth s2) (deepest r) = max (max (max_depth s) d) (deepest r')"
        using "2.IH"(2) [OF s1_def ne False dr] unfolding eq by (simp add: s1_def)
      have res: "insert_node point (Node l r mp nd) d s = (Node l r' mp nd, s2)"
        using ne False eq by (simp add: Let_def s1_def)
      have "max (max_depth s2) (max d (max (deepest l) (deepest r))) =
            max (max_depth s) (max d (max (deepest l) (deepest r')))"
        using h by linarith
      then show ?thesis unfolding res by (simp add: nd)
    qed
  qed
qed

lemma max_depth_insert_at_root:
  "max_depth (insert_at_root p s) = max_depth (snd (insert_node p (m_root s) 0 s))"
  by (simp add: insert_at_root_def split: prod.splits)

lemma deepest_insert_at_root:
  assumes "depths_from 0 (m_root s)" "max_depth s = deepest (m_root s)"
  shows "max_depth (insert_at_root p s) = deepest (m_root (insert_at_root p s))"
  using insert_node_max_depth [OF assms(1), of p s] assms(2)
    insert_node_max_depth_le [of s p "m_root s" 0] insert_node_deepest_le [of "m_root s" p 0 s]
  by (simp add: max_depth_insert_at_root m_root_insert_at_root)

lemma max_depth_PointSet_of:
  "max_depth (PointSet_of nth_element points) = deepest (m_root (PointSet_of nth_element points))"
proof -
  have "depths_from 0 (m_root (PointSet_of nth_element points)) \<and>
        max_depth (PointSet_of nth_element points) = deepest (m_root (PointSet_of nth_element points))"
    unfolding PointSet_of_def
    by (rule buildTree_invariant [where P = "\<lambda>s. depths_from 0 (m_root s) \<and> max_depth s = deepest (m_root s)"])
       (simp_all add: deepest_insert_at_root m_root_insert_at_root insert_node_depths empty_PointSet_def)
  then show ?thesis by simp
qed

text \<open>
  C5, as amended. \<open>put\<close> inserts the point and then tests \<open>max_depth > 2 * log(m_size)\<close>.
  When the test fails \<open>put\<close> returns with the set as the insertion produced it. When it
  holds and the walk from \<open>begin()\<close> gets past the root, \<open>put\<close> returns with the set that
  the tree builder produces from the in-order sequence of all current points, started from
  the set with no root, \<open>m_size = 0\<close> and \<open>max_depth = 0\<close> (\<open>PointSet_of\<close>); the builder's
  insertions raise \<open>max_depth\<close> again, and afterwards it is the greatest depth of a node of
  the new tree.
\<close>

theorem put_rebuilds_when_too_deep:
  "(\<not> depth_exceeded (max_depth (insert_at_root p s)) (m_size (insert_at_root p s)) \<longrightarrow>
      put isRight0 nth_element p s = Some (Inr (insert_at_root p s))) \<and>
   (depth_exceeded (max_depth (insert_at_root p s)) (m_size (insert_at_root p s)) \<and>
    reaches_end isRight0 (m_root (insert_at_root p s)) \<longrightarrow>
      put isRight0 nth_element p s =
        Some (Inr (PointSet_of nth_element (inorder_walk (m_root (insert_at_root p s))))) \<and>
      max_depth (PointSet_of nth_element (inorder_walk (m_root (insert_at_root p s)))) =
        deepest (m_root (PointSet_of nth_element (inorder_walk (m_root (insert_at_root p s))))))"
  by (simp add: put_def reBuild_eq max_depth_PointSet_of)

lemma well_formed_empty: "well_formed empty_PointSet"
  by (simp add: well_formed_def empty_PointSet_def)

lemma well_formed_PointSet_of: "well_formed (PointSet_of nth_element points)"
  unfolding PointSet_of_def
  by (rule buildTree_invariant [where P = well_formed])
     (simp_all add: well_formed_insert_at_root well_formed_empty)

lemma PointSet_copy_id [simp]: "PointSet_copy s = s"
  by (simp add: PointSet_copy_def)

lemma well_formed_put:
  "well_formed s \<Longrightarrow> put ir nth_element p s = Some (Inr s') \<Longrightarrow> well_formed s'"
  by (auto simp: put_def reBuild_eq well_formed_PointSet_of well_formed_insert_at_root
           split: if_splits)

lemma reachable_well_formed: "reachable ir nth_element s \<Longrightarrow> well_formed s"
  by (induction rule: reachable.induct)
     (auto simp: well_formed_PointSet_of intro: well_formed_put)

subsection \<open>The test of \<open>reBuild\<close> on small sets\<close>

lemma ln_2_lower: "1 / 2 \<le> ln (2::real)"
proof -
  have "(exp (1 / 2 :: real))\<^sup>2 = exp 1" by (simp add: exp_double [symmetric])
  then have "(exp (1 / 2 :: real))\<^sup>2 \<le> 2\<^sup>2" using exp_le by simp
  then have "exp (1 / 2 :: real) \<le> 2" by (rule power2_le_imp_le) simp
  then have "ln (exp (1 / 2 :: real)) \<le> ln 2" by (subst ln_le_cancel_iff) simp_all
  then show ?thesis by simp
qed

lemma ln_2_upper: "ln (2::real) < 3 / 4"
proof -
  have "1 + 3 / 4 + (3 / 4)\<^sup>2 / 2 \<le> exp (3 / 4 :: real)"
    by (rule exp_lower_Taylor_quadratic) simp
  then have "2 < exp (3 / 4 :: real)" by (simp add: power2_eq_square)
  then have "ln (2::real) < ln (exp (3 / 4))" by (subst ln_less_cancel_iff) simp_all
  then show ?thesis by simp
qed

lemma ln_3_lower: "1 \<le> ln (3::real)"
proof -
  have "ln (exp (1::real)) \<le> ln 3" using exp_le by (subst ln_le_cancel_iff) simp_all
  then show ?thesis by simp
qed

lemma ln_4: "ln (4::real) = 2 * ln 2"
  using ln_realpow [of 2 2] by simp

lemma depth_exceeded_ge_3: "3 \<le> d \<Longrightarrow> 0 < n \<Longrightarrow> n \<le> 4 \<Longrightarrow> depth_exceeded d n"
proof -
  assume d: "3 \<le> d" and n: "0 < n" "n \<le> 4"
  have "ln (real n) \<le> ln 4" using n by simp
  then have "2 * ln (real n) < 3" using ln_2_upper by (simp add: ln_4)
  moreover have "3 \<le> real d" using d by simp
  ultimately show ?thesis using n by (simp add: depth_exceeded_def)
qed

lemma depth_exceeded_le_1: "d \<le> 1 \<Longrightarrow> 2 \<le> n \<Longrightarrow> \<not> depth_exceeded d n"
proof -
  assume d: "d \<le> 1" and n: "2 \<le> n"
  have "ln (2::real) \<le> ln (real n)" using n by simp
  then have "1 \<le> 2 * ln (real n)" using ln_2_lower by linarith
  moreover have "real d \<le> 1" using d by simp
  ultimately show ?thesis using n by (simp add: depth_exceeded_def)
qed

lemma depth_exceeded_0: "0 < n \<Longrightarrow> \<not> depth_exceeded 0 n"
  by (simp add: depth_exceeded_def)

lemma depth_exceeded_le_2: "d \<le> 2 \<Longrightarrow> 3 \<le> n \<Longrightarrow> \<not> depth_exceeded d n"
proof -
  assume d: "d \<le> 2" and n: "3 \<le> n"
  have "ln (3::real) \<le> ln (real n)" using n by simp
  then have "1 \<le> ln (real n)" using ln_3_lower by linarith
  moreover have "real d \<le> 2" using d by simp
  ultimately show ?thesis using n by (simp add: depth_exceeded_def)
qed

subsection \<open>Running \<open>put\<close> on concrete points\<close>

lemmas eval_put = put_def reBuild_eq insert_at_root_def PointSet_of_def buildTree.simps
  nth_element_sort_def depth_less_def Point_eq_def toLeft_def eps_def reaches_end_def Let_def
  depth_exceeded_le_2 depth_exceeded_ge_3 depth_exceeded_le_1 depth_exceeded_0 empty_PointSet_def contains_def

lemma PointSet_of_Nil [simp]: "PointSet_of nth_element [] = empty_PointSet"
  by (simp add: PointSet_of_def buildTree.simps)

lemma reachable_empty: "reachable ir nth_element empty_PointSet"
  using reachable.built [of ir nth_element "[]"] by simp

lemma reachable_puts:
  "reachable ir nth_element s \<Longrightarrow> puts ir nth_element ps s = Some (Inr s') \<Longrightarrow>
   reachable ir nth_element s'"
proof (induction ps arbitrary: s)
  case Nil
  then show ?case by simp
next
  case (Cons p ps)
  then show ?case
    by (auto split: option.splits sum.splits intro: reachable.after_put)
qed

lemma example_run:
  "puts True nth_element_sort [Point 3 4, Point 4 0, Point 1 1] empty_PointSet =
     Some (Inr \<lparr>max_depth = 1,
                m_root = Node (Node Null Null (Point 1 1) 1) (Node Null Null (Point 4 0) 1)
                              (Point 3 4) 0,
                m_size = 3\<rparr>)"
  by (simp add: eval_put)

lemma example_reachable:
  "reachable True nth_element_sort
     \<lparr>max_depth = 1,
      m_root = Node (Node Null Null (Point 1 1) 1) (Node Null Null (Point 4 0) 1) (Point 3 4) 0,
      m_size = 3\<rparr>"
  using reachable_puts [OF reachable_empty example_run] .

theorem put_rebuilds_when_too_deep_witness:
  "put False nth_element_sort (Point 4 0)
     \<lparr>max_depth = 0, m_root = Node Null Null (Point 3 4) 0, m_size = 1\<rparr> =
     Some (Inr \<lparr>max_depth = 1, m_root = Node Null (Node Null Null (Point 4 0) 1) (Point 3 4) 0,
                m_size = 2\<rparr>) \<and>
   put True nth_element_sort (Point 7 (- 7))
     \<lparr>max_depth = 2,
      m_root = Node Null (Node (Node Null Null (Point 1 (- 5)) 2) Null (Point 2 1) 1) (Point 0 0) 0,
      m_size = 3\<rparr> =
     Some (Inr (PointSet_of nth_element_sort [Point 0 0, Point 1 (- 5), Point 7 (- 7), Point 2 1])) \<and>
   max_depth (PointSet_of nth_element_sort [Point 0 0, Point 1 (- 5), Point 7 (- 7), Point 2 1]) =
     deepest (m_root (PointSet_of nth_element_sort [Point 0 0, Point 1 (- 5), Point 7 (- 7), Point 2 1]))"
  using put_rebuilds_when_too_deep [of "Point 4 0"
      "\<lparr>max_depth = 0, m_root = Node Null Null (Point 3 4) 0, m_size = 1\<rparr>" False nth_element_sort]
    put_rebuilds_when_too_deep [of "Point 7 (- 7)"
      "\<lparr>max_depth = 2,
        m_root = Node Null (Node (Node Null Null (Point 1 (- 5)) 2) Null (Point 2 1) 1) (Point 0 0) 0,
        m_size = 3\<rparr>" True nth_element_sort]
  by (simp add: eval_put)

text \<open>
  The claim as stated fails in two ways. First, \<open>max_depth\<close> is not 0 after a rebuild. The
  set holds a chain of three points below the root's right link; \<open>put(7, -7)\<close> makes it a
  chain of depth 3 over 4 points, \<open>3 > 2 * log(4)\<close>, and the tree is rebuilt. The root has
  a right child, so the walk ends whatever the uninitialised flag reads. After the call
  \<open>max_depth\<close> is 2, the depth of the new tree. Second, the rebuild may not happen at all:
  on a chain of three points to the left of the root, \<open>put(-3, -2)\<close> makes the depth 3 over
  4 points, the root has no right child, and where the flag reads false the walk that
  takes the dump never ends, so \<open>put\<close> does not return.
\<close>

theorem put_rebuild_leaves_max_depth:
  "insert_at_root (Point 7 (- 7))
     \<lparr>max_depth = 2,
      m_root = Node Null (Node (Node Null Null (Point 1 (- 5)) 2) Null (Point 2 1) 1) (Point 0 0) 0,
      m_size = 3\<rparr> =
     \<lparr>max_depth = 3,
      m_root = Node Null (Node (Node Null (Node Null Null (Point 7 (- 7)) 3) (Point 1 (- 5)) 2) Null
                            (Point 2 1) 1) (Point 0 0) 0,
      m_size = 4\<rparr> \<and>
   depth_exceeded 3 4 \<and>
   put False nth_element_sort (Point 7 (- 7))
     \<lparr>max_depth = 2,
      m_root = Node Null (Node (Node Null Null (Point 1 (- 5)) 2) Null (Point 2 1) 1) (Point 0 0) 0,
      m_size = 3\<rparr> =
   Some (Inr \<lparr>max_depth = 2,
              m_root = Node (Node (Node Null Null (Point 1 (- 5)) 2) Null (Point 0 0) 1)
                            (Node Null Null (Point 7 (- 7)) 1) (Point 2 1) 0,
              m_size = 4\<rparr>) \<and>
   puts False nth_element_sort [Point 0 0, Point (- 1) 0, Point (- 2) (- 1)] empty_PointSet =
     Some (Inr \<lparr>max_depth = 2,
                m_root = Node (Node (Node Null Null (Point (- 2) (- 1)) 2) Null (Point (- 1) 0) 1)
                              Null (Point 0 0) 0,
                m_size = 3\<rparr>) \<and>
   put False nth_element_sort (Point (- 3) (- 2))
     \<lparr>max_depth = 2,
      m_root = Node (Node (Node Null Null (Point (- 2) (- 1)) 2) Null (Point (- 1) 0) 1)
                    Null (Point 0 0) 0,
      m_size = 3\<rparr> = None"
  by (simp add: eval_put)

section \<open>The partition invariant\<close>

text \<open>
  C6. In every reachable set, at every node at depth \<open>d\<close>, the points of the left subtree
  are at most the node's point in the split coordinate of \<open>d\<close> (x for even \<open>d\<close>, y for
  odd \<open>d\<close>) and the points of the right subtree are strictly greater.
\<close>

theorem reachable_partitioned:
  "reachable isRight0 nth_element s \<Longrightarrow> partitioned 0 (m_root s)"
  using reachable_well_formed [of isRight0 nth_element s] by (simp add: well_formed_def)

theorem reachable_partitioned_witness:
  "partitioned 0 (Node (Node Null Null (Point 1 1) 1) (Node Null Null (Point 4 0) 1) (Point 3 4) 0)"
  using reachable_partitioned [OF example_reachable] by simp

section \<open>Containment and size under \<open>put\<close>\<close>

lemma mset_insert_sorted: "mset (insert_sorted cmp v ws) = add_mset v (mset ws)"
  by (induction ws) auto

lemma mset_foldr_insert_sorted: "mset (foldr (insert_sorted cmp) xs []) = mset xs"
  by (induction xs) (auto simp: mset_insert_sorted)

lemma length_foldr_insert_sorted: "length (foldr (insert_sorted cmp) xs []) = length xs"
  using mset_foldr_insert_sorted [of cmp xs, THEN mset_eq_length] .

lemma rearranges_nth_element_sort: "rearranges nth_element_sort"
  unfolding rearranges_def
proof (intro allI impI)
  fix buffer :: "Point list" and first n stop cmp
  assume h: "first \<le> n \<and> n < stop \<and> stop \<le> length buffer"
  let ?mid = "foldr (insert_sorted cmp) (take (stop - first) (drop first buffer)) []"
  have whole: "buffer = take first buffer @ take (stop - first) (drop first buffer) @ drop stop buffer"
    by (rule split_at_two) (use h in simp)
  have 1: "mset (nth_element_sort buffer first n stop cmp) = mset buffer"
    using whole [THEN arg_cong, of mset]
    by (simp add: nth_element_sort_def mset_foldr_insert_sorted)
  have len: "length ?mid = stop - first"
    using h by (auto simp: length_foldr_insert_sorted)
  have 2: "take first (nth_element_sort buffer first n stop cmp) = take first buffer"
    using h by (simp add: nth_element_sort_def)
  have "drop stop (take first buffer @ ?mid @ drop stop buffer) =
        drop (stop - first) (?mid @ drop stop buffer)"
    using h by simp
  also have "\<dots> = drop stop buffer" using len by simp
  finally have 3: "drop stop (nth_element_sort buffer first n stop cmp) = drop stop buffer"
    by (simp add: nth_element_sort_def)
  show "mset (nth_element_sort buffer first n stop cmp) = mset buffer \<and>
        take first (nth_element_sort buffer first n stop cmp) = take first buffer \<and>
        drop stop (nth_element_sort buffer first n stop cmp) = drop stop buffer"
    using 1 2 3 by simp
qed

lemma insert_at_root_separated:
  assumes sep: "separated V" and wf: "well_formed s"
    and dist: "distinct (inorder_walk (m_root s))"
    and sub: "set (inorder_walk (m_root s)) \<subseteq> V" and p: "p \<in> V"
  shows "well_formed (insert_at_root p s) \<and>
         distinct (inorder_walk (m_root (insert_at_root p s))) \<and>
         set (inorder_walk (m_root (insert_at_root p s))) = insert p (set (inorder_walk (m_root s)))"
proof -
  let ?t = "m_root s"
  have found_iff: "find_node p ?t \<noteq> Null \<longleftrightarrow> p \<in> set (inorder_walk ?t)"
  proof
    assume "find_node p ?t \<noteq> Null"
    then obtain l r mp nd where "find_node p ?t = Node l r mp nd"
      by (cases "find_node p ?t") auto
    from find_node_result [OF this] have "Point_eq mp p" "mp \<in> set (inorder_walk ?t)" by auto
    moreover from this sub have "mp \<in> V" by auto
    ultimately show "p \<in> set (inorder_walk ?t)" using sep p by (auto simp: separated_def)
  next
    assume "p \<in> set (inorder_walk ?t)"
    then show "find_node p ?t \<noteq> Null"
      using find_node_stored wf by (auto simp: well_formed_def)
  qed
  have m: "mset (inorder_walk (m_root (insert_at_root p s))) =
           mset (inorder_walk ?t) + (if p \<in> set (inorder_walk ?t) then {#} else {#p#})"
    using found_iff by (auto simp: m_root_insert_at_root insert_node_mset)
  show ?thesis
  proof (cases "p \<in> set (inorder_walk ?t)")
    case True
    then have e: "mset (inorder_walk (m_root (insert_at_root p s))) = mset (inorder_walk ?t)"
      using m by simp
    show ?thesis
      using mset_eq_setD [OF e] mset_eq_imp_distinct_iff [OF e] dist True
        well_formed_insert_at_root [OF wf] by auto
  next
    case False
    then have e: "mset (inorder_walk (m_root (insert_at_root p s))) = mset (p # inorder_walk ?t)"
      using m by simp
    show ?thesis
      using mset_eq_setD [OF e] mset_eq_imp_distinct_iff [OF e] dist False
        well_formed_insert_at_root [OF wf] by auto
  qed
qed

lemma fold_insert_at_root_separated:
  "separated V \<Longrightarrow> well_formed s \<Longrightarrow> distinct (inorder_walk (m_root s)) \<Longrightarrow>
   set (inorder_walk (m_root s)) \<subseteq> V \<Longrightarrow> set ord \<subseteq> V \<Longrightarrow>
   well_formed (fold insert_at_root ord s) \<and>
   distinct (inorder_walk (m_root (fold insert_at_root ord s))) \<and>
   set (inorder_walk (m_root (fold insert_at_root ord s))) =
     set (inorder_walk (m_root s)) \<union> set ord"
proof (induction ord arbitrary: s)
  case Nil
  then show ?case by simp
next
  case (Cons p ord)
  from insert_at_root_separated [OF Cons.prems(1-4), of p] Cons.prems(5)
  have step: "well_formed (insert_at_root p s)"
    "distinct (inorder_walk (m_root (insert_at_root p s)))"
    "set (inorder_walk (m_root (insert_at_root p s))) = insert p (set (inorder_walk (m_root s)))"
    by auto
  have "set (inorder_walk (m_root (insert_at_root p s))) \<subseteq> V"
    using step(3) Cons.prems(4,5) by auto
  from Cons.IH [OF Cons.prems(1) step(1,2) this] Cons.prems(5) step(3)
  show ?case by auto
qed

lemma PointSet_of_separated:
  assumes "rearranges nth_element" "separated V" "set points \<subseteq> V"
  shows "well_formed (PointSet_of nth_element points) \<and>
         distinct (inorder_walk (m_root (PointSet_of nth_element points))) \<and>
         set (inorder_walk (m_root (PointSet_of nth_element points))) = set points"
proof -
  from buildTree_fold [OF assms(1), of 0 "length points" points empty_PointSet 0]
  obtain ord where b: "PointSet_of nth_element points = fold insert_at_root ord empty_PointSet"
    and o: "mset ord = mset points"
    by (auto simp: PointSet_of_def)
  have "set ord \<subseteq> V" using mset_eq_setD [OF o] assms(3) by simp
  from fold_insert_at_root_separated [OF assms(2) well_formed_empty _ _ this]
  show ?thesis using mset_eq_setD [OF o] by (simp add: b empty_PointSet_def)
qed

lemma put_separated:
  assumes re: "rearranges nth_element" and sep: "separated V" and wf: "well_formed s"
    and dist: "distinct (inorder_walk (m_root s))"
    and sub: "set (inorder_walk (m_root s)) \<subseteq> V" and p: "p \<in> V"
  shows "\<exists>s'. put True nth_element p s = Some (Inr s') \<and> well_formed s' \<and>
           distinct (inorder_walk (m_root s')) \<and>
           set (inorder_walk (m_root s')) = insert p (set (inorder_walk (m_root s)))"
proof -
  let ?s1 = "insert_at_root p s"
  note step = insert_at_root_separated [OF sep wf dist sub p]
  show ?thesis
  proof (cases "depth_exceeded (max_depth ?s1) (m_size ?s1)")
    case False
    then show ?thesis using step by (simp add: put_def reBuild_eq)
  next
    case True
    have "set (inorder_walk (m_root ?s1)) \<subseteq> V" using step sub p by auto
    from PointSet_of_separated [OF re sep this] step True
    show ?thesis by (simp add: put_def reBuild_eq reaches_end_def split: Node.splits)
  qed
qed

lemma puts_separated:
  "rearranges nth_element \<Longrightarrow> separated V \<Longrightarrow> well_formed s \<Longrightarrow>
   distinct (inorder_walk (m_root s)) \<Longrightarrow> set (inorder_walk (m_root s)) \<subseteq> V \<Longrightarrow>
   set ps \<subseteq> V \<Longrightarrow>
   \<exists>s'. puts True nth_element ps s = Some (Inr s') \<and> well_formed s' \<and>
        distinct (inorder_walk (m_root s')) \<and>
        set (inorder_walk (m_root s')) = set (inorder_walk (m_root s)) \<union> set ps"
proof (induction ps arbitrary: s)
  case Nil
  then show ?case by simp
next
  case (Cons p ps)
  from put_separated [OF Cons.prems(1-5), of p] Cons.prems(6)
  obtain s1 where s1: "put True nth_element p s = Some (Inr s1)" "well_formed s1"
    "distinct (inorder_walk (m_root s1))"
    "set (inorder_walk (m_root s1)) = insert p (set (inorder_walk (m_root s)))"
    by auto
  have "set (inorder_walk (m_root s1)) \<subseteq> V" using s1(4) Cons.prems(5,6) by auto
  from Cons.IH [OF Cons.prems(1,2) s1(2,3) this] Cons.prems(6)
  obtain s' where "puts True nth_element ps s1 = Some (Inr s')" "well_formed s'"
    "distinct (inorder_walk (m_root s'))"
    "set (inorder_walk (m_root s')) = set (inorder_walk (m_root s1)) \<union> set ps"
    by auto
  then show ?case using s1 by auto
qed

lemma contains_stored:
  "well_formed s \<Longrightarrow> p \<in> set (inorder_walk (m_root s)) \<Longrightarrow> contains s p"
  using find_node_stored by (auto simp: contains_def well_formed_def)

lemma isolated_mono: "isolated p U \<Longrightarrow> V \<subseteq> U \<Longrightarrow> isolated p V"
  by (auto simp: isolated_def)

lemma isolated_insert: "isolated p U \<Longrightarrow> isolated p (insert p U)"
  by (simp add: isolated_def)

lemma insert_at_root_points:
  "set (inorder_walk (m_root (insert_at_root q s))) =
     set (inorder_walk (m_root s)) \<union> (if find_node q (m_root s) = Null then {q} else {})"
  by (simp add: m_root_insert_at_root insert_node_set)

lemma insert_at_root_isolated:
  assumes "isolated p (set (inorder_walk (m_root s)))"
  shows "p \<in> set (inorder_walk (m_root (insert_at_root p s)))"
proof (cases "find_node p (m_root s)")
  case Null
  then show ?thesis by (simp add: insert_at_root_points)
next
  case (Node l r mp nd)
  from find_node_result [OF this] assms have "mp = p" "mp \<in> set (inorder_walk (m_root s))"
    by (auto simp: isolated_def)
  then show ?thesis by (simp add: insert_at_root_points)
qed

lemma fold_insert_at_root_points:
  "set (inorder_walk (m_root (fold insert_at_root ord s))) \<subseteq> set (inorder_walk (m_root s)) \<union> set ord"
proof (induction ord arbitrary: s)
  case Nil
  then show ?case by simp
next
  case (Cons q ord)
  have "set (inorder_walk (m_root (insert_at_root q s))) \<subseteq> insert q (set (inorder_walk (m_root s)))"
    by (auto simp: insert_at_root_points split: if_splits)
  with Cons.IH [of "insert_at_root q s"] show ?case by auto
qed

lemma fold_insert_at_root_isolated:
  "isolated p (set (inorder_walk (m_root s)) \<union> set ord) \<Longrightarrow>
   p \<in> set (inorder_walk (m_root s)) \<or> p \<in> set ord \<Longrightarrow>
   p \<in> set (inorder_walk (m_root (fold insert_at_root ord s)))"
proof (induction ord arbitrary: s)
  case Nil
  then show ?case by simp
next
  case (Cons q ord)
  let ?s1 = "insert_at_root q s"
  have sub: "set (inorder_walk (m_root ?s1)) \<subseteq> insert q (set (inorder_walk (m_root s)))"
    by (auto simp: insert_at_root_points split: if_splits)
  then have iso: "isolated p (set (inorder_walk (m_root ?s1)) \<union> set ord)"
    using Cons.prems(1) by (elim isolated_mono) auto
  have "p \<in> set (inorder_walk (m_root ?s1)) \<or> p \<in> set ord"
  proof (cases "p = q")
    case True
    have "isolated p (set (inorder_walk (m_root s)))"
      using Cons.prems(1) by (elim isolated_mono) auto
    then show ?thesis using True insert_at_root_isolated by simp
  next
    case False
    then show ?thesis using Cons.prems(2) by (auto simp: insert_at_root_points)
  qed
  from Cons.IH [OF iso this] show ?case by simp
qed

lemma PointSet_of_fold:
  assumes "rearranges nth_element"
  shows "\<exists>ord. PointSet_of nth_element points = fold insert_at_root ord empty_PointSet \<and>
               set ord = set points"
proof -
  from buildTree_fold [OF assms, of 0 "length points" points empty_PointSet 0]
  obtain ord where "PointSet_of nth_element points = fold insert_at_root ord empty_PointSet"
    and "mset ord = mset points"
    by (auto simp: PointSet_of_def)
  then show ?thesis using mset_eq_setD by blast
qed

lemma PointSet_of_points:
  assumes "rearranges nth_element"
  shows "set (inorder_walk (m_root (PointSet_of nth_element points))) \<subseteq> set points"
proof -
  from PointSet_of_fold [OF assms, of points]
  obtain ord where "PointSet_of nth_element points = fold insert_at_root ord empty_PointSet"
    "set ord = set points" by blast
  then show ?thesis
    using fold_insert_at_root_points [of ord empty_PointSet] by (simp add: empty_PointSet_def)
qed

lemma PointSet_of_isolated:
  assumes "rearranges nth_element" "isolated p (set points)" "p \<in> set points"
  shows "p \<in> set (inorder_walk (m_root (PointSet_of nth_element points)))"
proof -
  from PointSet_of_fold [OF assms(1), of points]
  obtain ord where o: "PointSet_of nth_element points = fold insert_at_root ord empty_PointSet"
    "set ord = set points" by blast
  then show ?thesis
    using fold_insert_at_root_isolated [of p empty_PointSet ord] assms(2,3)
    by (simp add: empty_PointSet_def)
qed

lemma put_points:
  assumes "rearranges nth_element" "put ir nth_element q s = Some (Inr s')"
  shows "set (inorder_walk (m_root s')) \<subseteq> insert q (set (inorder_walk (m_root s)))"
proof -
  have "set (inorder_walk (m_root (insert_at_root q s))) \<subseteq> insert q (set (inorder_walk (m_root s)))"
    by (auto simp: insert_at_root_points split: if_splits)
  then show ?thesis
    using assms(2) PointSet_of_points [OF assms(1), of "inorder_walk (m_root (insert_at_root q s))"]
    by (auto simp: put_def reBuild_eq split: if_splits)
qed

lemma put_keeps_isolated:
  assumes re: "rearranges nth_element" and put: "put ir nth_element q s = Some (Inr s')"
    and iso: "isolated p (insert q (set (inorder_walk (m_root s))))"
    and p: "p \<in> set (inorder_walk (m_root s)) \<or> p = q"
  shows "p \<in> set (inorder_walk (m_root s'))"
proof -
  let ?s1 = "insert_at_root q s"
  have sub: "set (inorder_walk (m_root ?s1)) \<subseteq> insert q (set (inorder_walk (m_root s)))"
    by (auto simp: insert_at_root_points split: if_splits)
  have p1: "p \<in> set (inorder_walk (m_root ?s1))"
  proof (cases "p = q")
    case True
    have "isolated p (set (inorder_walk (m_root s)))" using iso by (elim isolated_mono) auto
    then show ?thesis using True insert_at_root_isolated by simp
  next
    case False
    then show ?thesis using p by (auto simp: insert_at_root_points)
  qed
  have "isolated p (set (inorder_walk (m_root ?s1)))" using iso sub by (rule isolated_mono)
  from PointSet_of_isolated [OF re this p1] p1 put
  show ?thesis by (auto simp: put_def reBuild_eq split: if_splits)
qed

lemma puts_keeps_isolated:
  "rearranges nth_element \<Longrightarrow> puts ir nth_element qs s = Some (Inr s') \<Longrightarrow>
   isolated p (set (inorder_walk (m_root s)) \<union> set qs) \<Longrightarrow>
   p \<in> set (inorder_walk (m_root s)) \<or> p \<in> set qs \<Longrightarrow>
   p \<in> set (inorder_walk (m_root s'))"
proof (induction qs arbitrary: s)
  case Nil
  then show ?case by simp
next
  case (Cons q qs)
  from Cons.prems(2) obtain s1 where s1: "put ir nth_element q s = Some (Inr s1)"
    "puts ir nth_element qs s1 = Some (Inr s')"
    by (auto split: option.splits sum.splits)
  have sub: "set (inorder_walk (m_root s1)) \<subseteq> insert q (set (inorder_walk (m_root s)))"
    using Cons.prems(1) s1(1) by (rule put_points)
  then have iso: "isolated p (set (inorder_walk (m_root s1)) \<union> set qs)"
    using Cons.prems(3) by (elim isolated_mono) auto
  have "p \<in> set (inorder_walk (m_root s1)) \<or> p \<in> set qs"
  proof (cases "p \<in> set (inorder_walk (m_root s)) \<or> p = q")
    case True
    have "isolated p (insert q (set (inorder_walk (m_root s))))"
      using Cons.prems(3) by (elim isolated_mono) auto
    from put_keeps_isolated [OF Cons.prems(1) s1(1) this True] show ?thesis by simp
  next
    case False
    then show ?thesis using Cons.prems(4) by auto
  qed
  from Cons.IH [OF Cons.prems(1) s1(2) iso this] show ?case .
qed

lemma puts_True_returns: "\<exists>s'. puts True nth_element ps s = Some (Inr s')"
proof (induction ps arbitrary: s)
  case Nil
  then show ?case by simp
next
  case (Cons q ps)
  have "\<exists>s1. put True nth_element q s = Some (Inr s1)"
    by (simp add: put_def reBuild_eq reaches_end_def split: Node.split)
  then show ?case using Cons.IH by auto
qed

text \<open>
  C4, as amended. Let \<open>p\<close> be a point that \<open>operator==\<close> identifies with no other point of
  the file and with no other point passed to \<open>put\<close>, before or after it. Then \<open>contains(p)\<close>
  is true after \<open>put(p)\<close> and after every further sequence of \<open>put\<close> calls that return,
  rebuilds included; the other points may be within epsilon of one another. Where the
  uninitialised flag of \<open>next\<close> reads true every \<open>put\<close> returns.
\<close>

theorem contains_after_puts_isolated:
  assumes "rearranges nth_element" and "isolated p (set init \<union> set ps \<union> set qs)"
  shows "(\<exists>s. puts True nth_element (ps @ [p] @ qs) (PointSet_of nth_element init) = Some (Inr s)) \<and>
         (\<forall>s. puts isRight0 nth_element (ps @ [p] @ qs) (PointSet_of nth_element init) = Some (Inr s)
              \<longrightarrow> contains s p)"
proof (intro conjI allI impI)
  show "\<exists>s. puts True nth_element (ps @ [p] @ qs) (PointSet_of nth_element init) = Some (Inr s)"
    by (rule puts_True_returns)
next
  fix s
  assume run: "puts isRight0 nth_element (ps @ [p] @ qs) (PointSet_of nth_element init) = Some (Inr s)"
  let ?s0 = "PointSet_of nth_element init"
  have "set (inorder_walk (m_root ?s0)) \<subseteq> set init" using assms(1) by (rule PointSet_of_points)
  moreover have "isolated p (insert p (set init \<union> set ps \<union> set qs))"
    using assms(2) by (rule isolated_insert)
  ultimately have "isolated p (set (inorder_walk (m_root ?s0)) \<union> set (ps @ [p] @ qs))"
    by (elim isolated_mono) auto
  from puts_keeps_isolated [OF assms(1) run this]
  have "p \<in> set (inorder_walk (m_root s))" by simp
  moreover have "well_formed s"
    using reachable_well_formed [OF reachable_puts [OF reachable.built run]] .
  ultimately show "contains s p" by (intro contains_stored)
qed

theorem contains_after_puts_isolated_witness:
  "\<exists>s. puts True nth_element_sort ([Point 0 0, Point (eps / 2) 0] @ [Point 2 2] @ [Point 3 3])
          (PointSet_of nth_element_sort [Point (eps / 4) 0]) = Some (Inr s) \<and>
       contains s (Point 2 2)"
  using contains_after_puts_isolated [OF rearranges_nth_element_sort,
      of "Point 2 2" "[Point (eps / 4) 0]" "[Point 0 0, Point (eps / 2) 0]" "[Point 3 3]" True]
  by (auto simp: isolated_def Point_eq_def eps_def)

text \<open>
  The claim as stated fails for a point within epsilon of a stored one. After \<open>put(0,0)\<close>,
  \<open>put(eps/2,0)\<close> changes nothing and \<open>contains(eps/2,0)\<close> is true. Three more points
  make a chain of depth 3 over 4 points, the tree is rebuilt with \<open>(eps/4,1)\<close> at the root,
  and \<open>contains(eps/2,0)\<close> is false: the search goes right at the root, \<open>(0,0)\<close> is on the
  left.
\<close>

theorem contains_lost_counterexample:
  "puts True nth_element_sort [Point 0 0, Point (eps / 2) 0] empty_PointSet =
     Some (Inr \<lparr>max_depth = 0, m_root = Node Null Null (Point 0 0) 0, m_size = 1\<rparr>) \<and>
   contains \<lparr>max_depth = 0, m_root = Node Null Null (Point 0 0) 0, m_size = 1\<rparr> (Point (eps / 2) 0) \<and>
   puts True nth_element_sort [Point (eps / 4) 1, Point (eps / 8) (- 5), Point 7 (- 7)]
     \<lparr>max_depth = 0, m_root = Node Null Null (Point 0 0) 0, m_size = 1\<rparr> =
     Some (Inr \<lparr>max_depth = 2,
                m_root = Node (Node (Node Null Null (Point (eps / 8) (- 5)) 2) Null (Point 0 0) 1)
                              (Node Null Null (Point 7 (- 7)) 1)
                              (Point (eps / 4) 1) 0,
                m_size = 4\<rparr>) \<and>
   \<not> contains \<lparr>max_depth = 2,
                m_root = Node (Node (Node Null Null (Point (eps / 8) (- 5)) 2) Null (Point 0 0) 1)
                              (Node Null Null (Point 7 (- 7)) 1)
                              (Point (eps / 4) 1) 0,
                m_size = 4\<rparr> (Point (eps / 2) 0)"
  by (simp add: eval_put)

text \<open>
  C8, as amended. Let the points of the file and the points passed to \<open>put\<close> be such that
  two of them that \<open>operator==\<close> identifies are the same point, and let the uninitialised
  flag of \<open>next\<close> read as true. Then after any sequence of \<open>put\<close> calls \<open>size()\<close> is the
  number of distinct points of the file and of the calls, the stored points are exactly
  these, and a further \<open>put\<close> of any of them leaves \<open>size()\<close> and the stored points as
  they are.
\<close>

theorem size_counts_distinct_separated:
  assumes "rearranges nth_element" and "separated (set init \<union> set ps)"
  shows "\<exists>s. puts True nth_element ps (PointSet_of nth_element init) = Some (Inr s) \<and>
             size_set s = card (set init \<union> set ps) \<and>
             set (inorder_walk (m_root s)) = set init \<union> set ps \<and>
             (\<forall>p \<in> set init \<union> set ps.
                \<exists>s'. put True nth_element p s = Some (Inr s') \<and> size_set s' = size_set s \<and>
                     set (inorder_walk (m_root s')) = set (inorder_walk (m_root s)))"
proof -
  let ?V = "set init \<union> set ps"
  have i: "set init \<subseteq> ?V" by auto
  note b = PointSet_of_separated [OF assms(1,2) i]
  have sub0: "set (inorder_walk (m_root (PointSet_of nth_element init))) \<subseteq> ?V" using b by auto
  have "set ps \<subseteq> ?V" by auto
  with puts_separated [OF assms(1,2) _ _ sub0, of ps] b
  obtain s where s: "puts True nth_element ps (PointSet_of nth_element init) = Some (Inr s)"
    "well_formed s" "distinct (inorder_walk (m_root s))"
    "set (inorder_walk (m_root s)) = ?V"
    by auto
  have size: "size_set s = card ?V"
    using s(2,3,4) distinct_card [of "inorder_walk (m_root s)"]
    by (simp add: size_set_def well_formed_def)
  have again: "\<exists>s'. put True nth_element p s = Some (Inr s') \<and> size_set s' = size_set s \<and>
                 set (inorder_walk (m_root s')) = set (inorder_walk (m_root s))"
    if p: "p \<in> ?V" for p
  proof -
    have sub: "set (inorder_walk (m_root s)) \<subseteq> ?V" using s(4) by simp
    from put_separated [OF assms(1,2) s(2,3) sub p]
    obtain s' where s': "put True nth_element p s = Some (Inr s')" "well_formed s'"
      "distinct (inorder_walk (m_root s'))"
      "set (inorder_walk (m_root s')) = insert p (set (inorder_walk (m_root s)))"
      by auto
    have "set (inorder_walk (m_root s')) = set (inorder_walk (m_root s))"
      using s'(4) s(4) p by auto
    moreover from this have "size_set s' = size_set s"
      using s'(2,3) s(2,3) distinct_card [of "inorder_walk (m_root s')"]
        distinct_card [of "inorder_walk (m_root s)"]
      by (simp add: size_set_def well_formed_def)
    ultimately show ?thesis using s'(1) by auto
  qed
  show ?thesis using s(1,4) size again by blast
qed

theorem size_counts_distinct_separated_witness:
  "\<exists>s. puts True nth_element_sort [Point 1 1, Point 0 0, Point 1 1]
          (PointSet_of nth_element_sort [Point 0 0]) = Some (Inr s) \<and>
       size_set s = card (set [Point 0 0] \<union> set [Point 1 1, Point 0 0, Point 1 1]) \<and>
       set (inorder_walk (m_root s)) = set [Point 0 0] \<union> set [Point 1 1, Point 0 0, Point 1 1] \<and>
       (\<forall>p \<in> set [Point 0 0] \<union> set [Point 1 1, Point 0 0, Point 1 1].
          \<exists>s'. put True nth_element_sort p s = Some (Inr s') \<and> size_set s' = size_set s \<and>
               set (inorder_walk (m_root s')) = set (inorder_walk (m_root s)))"
  using size_counts_distinct_separated [OF rearranges_nth_element_sort,
      of "[Point 0 0]" "[Point 1 1, Point 0 0, Point 1 1]"]
  by (simp add: separated_def Point_eq_def eps_def)

text \<open>
  The claim as stated fails for a point within epsilon of a stored one that the descent
  does not meet: \<open>(eps/4,1)\<close> is epsilon-equal to the stored \<open>(-eps/4,1)\<close>, but it is sent
  to the right of the root \<open>(0,0)\<close> and stored, and \<open>size()\<close> grows from 2 to 3.
\<close>

theorem size_grows_counterexample:
  "Point_eq (Point (eps / 4) 1) (Point (- (eps / 4)) 1) \<and>
   puts True nth_element_sort [Point 0 0, Point (- (eps / 4)) 1] empty_PointSet =
     Some (Inr \<lparr>max_depth = 1,
                m_root = Node (Node Null Null (Point (- (eps / 4)) 1) 1) Null (Point 0 0) 0,
                m_size = 2\<rparr>) \<and>
   put True nth_element_sort (Point (eps / 4) 1)
     \<lparr>max_depth = 1,
      m_root = Node (Node Null Null (Point (- (eps / 4)) 1) 1) Null (Point 0 0) 0,
      m_size = 2\<rparr> =
     Some (Inr \<lparr>max_depth = 1,
                m_root = Node (Node Null Null (Point (- (eps / 4)) 1) 1)
                              (Node Null Null (Point (eps / 4) 1) 1) (Point 0 0) 0,
                m_size = 3\<rparr>)"
  by (simp add: eval_put)

section \<open>Range query and iteration on concrete sets\<close>

text \<open>
  C2. The set holds \<open>(-eps/4, 1/4)\<close> at the root and \<open>(-eps/2, 1/2)\<close> as its left child.
  \<open>Rect::contains\<close> of the rectangle \<open>(0,0)-(1,1)\<close> accepts the child, which is within
  epsilon of the left edge. \<open>range\<close> does not return it: the root's x is below \<open>xmin\<close>,
  so the left subtree is not visited.
\<close>

theorem range_misses_point:
  "puts True nth_element_sort [Point (- (eps / 4)) (1 / 4), Point (- (eps / 2)) (1 / 2)] empty_PointSet =
     Some (Inr \<lparr>max_depth = 1,
                m_root = Node (Node Null Null (Point (- (eps / 2)) (1 / 2)) 1) Null
                              (Point (- (eps / 4)) (1 / 4)) 0,
                m_size = 2\<rparr>) \<and>
   Rect_contains (Rect (Point 0 0) (Point 1 1)) (Point (- (eps / 2)) (1 / 2)) \<and>
   range_query \<lparr>max_depth = 1,
                m_root = Node (Node Null Null (Point (- (eps / 2)) (1 / 2)) 1) Null
                              (Point (- (eps / 4)) (1 / 4)) 0,
                m_size = 2\<rparr> (Rect (Point 0 0) (Point 1 1)) = [Point (- (eps / 4)) (1 / 4)]"
  by (simp add: eval_put range_query_def Rect_contains_def Rect_distance_def
        xmin_def xmax_def ymin_def ymax_def)

text \<open>
  C7. On the set that holds the one point \<open>(0,0)\<close>, \<open>begin()\<close> is the root. The root has
  no right child and no parent, so \<open>next\<close> reads \<open>isRight\<close> uninitialised. Where the value
  read is false, \<open>next\<close> returns the root again, and the walk from \<open>begin()\<close> to \<open>end()\<close>
  never ends.
\<close>

theorem iteration_never_ends_on_one_point:
  "put False nth_element (Point 0 0) empty_PointSet =
     Some (Inr \<lparr>max_depth = 0, m_root = Node Null Null (Point 0 0) 0, m_size = 1\<rparr>) \<and>
   PointSet_begin \<lparr>max_depth = 0, m_root = Node Null Null (Point 0 0) 0, m_size = 1\<rparr> = Some [] \<and>
   PointSet_next False (Node Null Null (Point 0 0) 0) (Some []) = Some [] \<and>
   range_points False \<lparr>max_depth = 0, m_root = Node Null Null (Point 0 0) 0, m_size = 1\<rparr>
     (TreeRange (PointSet_begin \<lparr>max_depth = 0, m_root = Node Null Null (Point 0 0) 0, m_size = 1\<rparr>)
        PointSet_end) = None"
  by (simp add: eval_put PointSet_begin_def root_ptr_def PointSet_left_def node_at_def
        PointSet_next_def range_points_def PointSet_end_def
        for_each_root_loops [of "\<lparr>max_depth = 0, m_root = Node Null Null (Point 0 0) 0, m_size = 1\<rparr>", simplified])

section \<open>Rounding to a double\<close>

subsection \<open>Powers of two\<close>

lemma p2_add: "(2::real) powi (a + b) = 2 powi a * 2 powi b"
  by (rule power_int_add) simp

lemma p2_diff: "(2::real) powi (a - b) = 2 powi a / 2 powi b"
  by (rule power_int_diff) simp

lemma p2_pos: "0 < (2::real) powi a"
  by simp

lemma p2_mono: "a \<le> b \<Longrightarrow> (2::real) powi a \<le> 2 powi b"
  by (rule power_int_increasing) simp_all

lemma p2_strict_mono: "a < b \<Longrightarrow> (2::real) powi a < 2 powi b"
  by (rule power_int_strict_increasing) simp_all

lemma p2_less_iff: "(2::real) powi a < 2 powi b \<longleftrightarrow> a < b"
  using p2_strict_mono [of a b] p2_mono [of b a] by (cases "a < b") auto

lemma p2_le_iff: "(2::real) powi a \<le> 2 powi b \<longleftrightarrow> a \<le> b"
  using p2_strict_mono [of b a] p2_mono [of a b] by (cases "a \<le> b") auto

lemma p2_powr: "(2::real) powr of_int k = 2 powi k"
  by (rule powr_real_of_int') simp_all

lemma p2_nat: "0 \<le> k \<Longrightarrow> (2::real) powi k = of_int (2 ^ nat k)"
  by (simp add: power_int_nonneg_exp)

subsection \<open>Rounding to an integer\<close>

lemma round_half_even_error: "\<bar>of_int (round_half_even m) - m\<bar> \<le> 1 / 2"
  unfolding round_half_even_def Let_def by (auto; linarith)

lemma round_half_even_int [simp]: "round_half_even (of_int n) = n"
  by (simp add: round_half_even_def)

lemma round_half_even_0 [simp]: "round_half_even 0 = 0"
  using round_half_even_int [of 0] by simp

lemma round_half_even_mono: "a \<le> b \<Longrightarrow> round_half_even a \<le> round_half_even b"
proof -
  assume ab: "a \<le> b"
  have fl: "\<lfloor>a\<rfloor> \<le> \<lfloor>b\<rfloor>" using ab by (rule floor_mono)
  show ?thesis
  proof (cases "\<lfloor>a\<rfloor> = \<lfloor>b\<rfloor>")
    case True
    then show ?thesis using ab unfolding round_half_even_def Let_def by auto
  next
    case False
    then have "\<lfloor>a\<rfloor> + 1 \<le> \<lfloor>b\<rfloor>" using fl by simp
    moreover have "round_half_even a \<le> \<lfloor>a\<rfloor> + 1" by (simp add: round_half_even_def Let_def)
    moreover have "\<lfloor>b\<rfloor> \<le> round_half_even b" by (simp add: round_half_even_def Let_def)
    ultimately show ?thesis by linarith
  qed
qed

lemma round_half_even_minus: "round_half_even (- m) = - round_half_even m"
proof (cases "m \<in> \<int>")
  case True
  then obtain n where "m = of_int n" by (auto elim: Ints_cases)
  then show ?thesis by (simp flip: of_int_minus)
next
  case False
  then have ne: "m \<noteq> of_int \<lfloor>m\<rfloor>" by (metis Ints_of_int)
  then have fl: "\<lfloor>- m\<rfloor> = - \<lfloor>m\<rfloor> - 1"
    by (simp add: floor_minus ceiling_altdef)
  have fr: "m - of_int \<lfloor>m\<rfloor> > 0" using ne of_int_floor_le [of m] by linarith
  show ?thesis
    unfolding round_half_even_def Let_def fl using fr by auto
qed

lemma round_half_even_nonneg: "0 \<le> m \<Longrightarrow> 0 \<le> round_half_even m"
  using round_half_even_mono [of 0 m] by simp

lemma round_half_even_le: "m \<le> of_int n \<Longrightarrow> round_half_even m \<le> n"
  using round_half_even_mono [of m "of_int n"] by simp

lemma round_half_even_ge: "of_int n \<le> m \<Longrightarrow> n \<le> round_half_even m"
  using round_half_even_mono [of "of_int n" m] by simp

subsection \<open>Exponent and unit in the last place\<close>

lemma exponent_minus [simp]: "exponent (- x) = exponent x"
  by (simp add: exponent_def)

lemma exponent_abs [simp]: "exponent \<bar>x\<bar> = exponent x"
  by (simp add: exponent_def)

lemma ulp_minus [simp]: "ulp (- x) = ulp x"
  by (simp add: ulp_def)

lemma ulp_abs [simp]: "ulp \<bar>x\<bar> = ulp x"
  by (simp add: ulp_def)

lemma ulp_pos: "0 < ulp x"
  by (simp add: ulp_def)

lemma exponent_ge: "- 1022 \<le> exponent x"
  by (simp add: exponent_def)

lemma floor_log2:
  assumes "0 < x"
  shows "2 powi \<lfloor>log 2 x\<rfloor> \<le> x" "x < 2 powi (\<lfloor>log 2 x\<rfloor> + 1)"
  using floor_log_eq_powr_iff [of x 2 "\<lfloor>log 2 x\<rfloor>"] assms
  by (simp_all add: p2_powr flip: of_int_add)

lemma floor_log2_eqI:
  assumes "2 powi k \<le> x" "x < 2 powi (k + 1)"
  shows "\<lfloor>log 2 x\<rfloor> = k"
proof -
  have "0 < x" using assms(1) p2_pos [of k] by linarith
  then show ?thesis
    using floor_log_eq_powr_iff [of x 2 k] assms by (simp add: p2_powr flip: of_int_add)
qed

lemma exponent_upper: "\<bar>x\<bar> < 2 powi (exponent x + 1)"
proof (cases "x = 0")
  case True
  then show ?thesis by simp
next
  case False
  then have pos: "0 < \<bar>x\<bar>" by simp
  have "\<bar>x\<bar> < 2 powi (\<lfloor>log 2 \<bar>x\<bar>\<rfloor> + 1)" using pos by (rule floor_log2)
  also have "\<dots> \<le> 2 powi (exponent x + 1)"
    using False by (intro p2_mono) (simp add: exponent_def)
  finally show ?thesis .
qed

lemma exponent_lower:
  assumes "2 powi (- 1022) \<le> \<bar>x\<bar>"
  shows "2 powi (exponent x) \<le> \<bar>x\<bar>"
proof -
  have pos: "0 < \<bar>x\<bar>" using assms p2_pos [of "- 1022"] by linarith
  define k where "k = \<lfloor>log 2 \<bar>x\<bar>\<rfloor>"
  have k: "2 powi k \<le> \<bar>x\<bar>" "\<bar>x\<bar> < 2 powi (k + 1)"
    using floor_log2 [OF pos] by (simp_all add: k_def)
  have "(2::real) powi (- 1022) < 2 powi (k + 1)" using assms k(2) by linarith
  then have "- 1022 < k + 1" by (simp only: p2_less_iff)
  then have "exponent x = k" using pos by (simp add: exponent_def k_def)
  then show ?thesis using k(1) by simp
qed

lemma exponent_eqI:
  assumes "2 powi k \<le> \<bar>x\<bar>" "\<bar>x\<bar> < 2 powi (k + 1)" "- 1022 \<le> k"
  shows "exponent x = k"
proof -
  have pos: "0 < \<bar>x\<bar>" using assms(1) p2_pos [of k] by linarith
  have "\<lfloor>log 2 \<bar>x\<bar>\<rfloor> = k" using assms(1,2) by (rule floor_log2_eqI)
  then show ?thesis using pos assms(3) by (simp add: exponent_def)
qed

lemma exponent_small:
  assumes "\<bar>x\<bar> < 2 powi (- 1021)"
  shows "exponent x = - 1022"
proof (cases "x = 0")
  case True
  then show ?thesis by (simp add: exponent_def)
next
  case False
  then have pos: "0 < \<bar>x\<bar>" by simp
  define k where "k = \<lfloor>log 2 \<bar>x\<bar>\<rfloor>"
  have k: "2 powi k \<le> \<bar>x\<bar>" using floor_log2 [OF pos] by (simp_all add: k_def)
  then have "(2::real) powi k < 2 powi (- 1021)" using assms by linarith
  then have "k < - 1021" by (simp only: p2_less_iff)
  then show ?thesis using False by (simp add: exponent_def k_def)
qed

lemma exponent_mono:
  assumes "\<bar>x\<bar> \<le> \<bar>y\<bar>"
  shows "exponent x \<le> exponent y"
proof (cases "x = 0")
  case True
  then show ?thesis using exponent_ge [of y] by (simp add: exponent_def)
next
  case False
  then have "y \<noteq> 0" using assms by auto
  have "log 2 \<bar>x\<bar> \<le> log 2 \<bar>y\<bar>" using False assms by simp
  then have "\<lfloor>log 2 \<bar>x\<bar>\<rfloor> \<le> \<lfloor>log 2 \<bar>y\<bar>\<rfloor>" by (rule floor_mono)
  then show ?thesis using False \<open>y \<noteq> 0\<close> by (simp add: exponent_def)
qed

lemma ulp_mono: "\<bar>x\<bar> \<le> \<bar>y\<bar> \<Longrightarrow> ulp x \<le> ulp y"
  unfolding ulp_def using exponent_mono [of x y] by (intro p2_mono) simp

lemma p2_split: "(2::real) powi (e + 1) = 2 ^ 53 * 2 powi (e - 52)"
  using p2_add [of 53 "e - 52"] by (simp add: add.commute)

lemma p2_split': "(2::real) powi e = 2 ^ 52 * 2 powi (e - 52)"
  using p2_add [of 52 "e - 52"] by simp

lemma scaled_upper: "\<bar>x\<bar> / ulp x < 2 ^ 53"
proof -
  have "\<bar>x\<bar> < 2 ^ 53 * ulp x"
    using exponent_upper [of x] by (simp only: p2_split [of "exponent x"] ulp_def)
  then show ?thesis using ulp_pos [of x] by (simp add: pos_divide_less_eq)
qed

lemma scaled_lower:
  assumes "2 powi (- 1022) \<le> \<bar>x\<bar>"
  shows "2 ^ 52 \<le> \<bar>x\<bar> / ulp x"
proof -
  have "2 ^ 52 * ulp x \<le> \<bar>x\<bar>"
    using exponent_lower [OF assms] by (simp only: p2_split' [of "exponent x"] ulp_def)
  then show ?thesis using ulp_pos [of x] by (simp add: pos_le_divide_eq)
qed

subsection \<open>Rounding with an unbounded exponent\<close>

lemma round_real_0 [simp]: "round_real 0 = 0"
  by (simp add: round_real_def)

lemma round_real_minus: "round_real (- x) = - round_real x"
  by (simp add: round_real_def round_half_even_minus)

lemma round_real_error: "\<bar>round_real x - x\<bar> \<le> ulp x / 2"
proof -
  have "round_real x - x = (of_int (round_half_even (x / ulp x)) - x / ulp x) * ulp x"
    using ulp_pos [of x] by (simp add: round_real_def algebra_simps)
  then have "\<bar>round_real x - x\<bar> = \<bar>of_int (round_half_even (x / ulp x)) - x / ulp x\<bar> * ulp x"
    using ulp_pos [of x] by (simp add: abs_mult)
  also have "\<dots> \<le> 1 / 2 * ulp x"
    using round_half_even_error [of "x / ulp x"] ulp_pos [of x]
    by (intro mult_right_mono) simp_all
  finally show ?thesis by simp
qed

lemma round_real_nonneg: "0 \<le> x \<Longrightarrow> 0 \<le> round_real x"
  using ulp_pos [of x] by (simp add: round_real_def round_half_even_nonneg)

lemma round_real_upper:
  assumes "0 \<le> x"
  shows "round_real x \<le> 2 powi (exponent x + 1)"
proof -
  have "x / ulp x \<le> of_int (2 ^ 53)" using scaled_upper [of x] assms by simp
  then have "round_half_even (x / ulp x) \<le> 2 ^ 53" by (rule round_half_even_le)
  then have "(of_int (round_half_even (x / ulp x)) :: real) \<le> of_int (2 ^ 53)"
    by (simp only: of_int_le_iff)
  then have "round_real x \<le> 2 ^ 53 * ulp x"
    unfolding round_real_def using ulp_pos [of x] by (intro mult_right_mono) simp_all
  then show ?thesis by (simp only: p2_split [of "exponent x"] ulp_def)
qed

lemma round_real_lower:
  assumes "2 powi (- 1022) \<le> x"
  shows "2 powi (exponent x) \<le> round_real x"
proof -
  have x: "0 \<le> x" using assms p2_pos [of "- 1022"] by linarith
  have "of_int (2 ^ 52) \<le> x / ulp x" using scaled_lower [of x] assms x by simp
  then have "2 ^ 52 \<le> round_half_even (x / ulp x)" by (rule round_half_even_ge)
  then have "(of_int (2 ^ 52) :: real) \<le> of_int (round_half_even (x / ulp x))"
    by (simp only: of_int_le_iff)
  then have "2 ^ 52 * ulp x \<le> round_real x"
    unfolding round_real_def using ulp_pos [of x] by (intro mult_right_mono) simp_all
  then show ?thesis by (simp only: p2_split' [of "exponent x"] ulp_def)
qed

lemma round_real_mono_nonneg:
  assumes "0 \<le> x" "x \<le> y"
  shows "round_real x \<le> round_real y"
proof (cases "exponent x = exponent y")
  case True
  then have u: "ulp x = ulp y" by (simp add: ulp_def)
  have "x / ulp y \<le> y / ulp y" using assms ulp_pos [of y] by (simp add: divide_right_mono)
  then have "round_half_even (x / ulp y) \<le> round_half_even (y / ulp y)"
    by (rule round_half_even_mono)
  then show ?thesis
    unfolding round_real_def u using ulp_pos [of y] by (intro mult_right_mono) simp_all
next
  case False
  have "exponent x \<le> exponent y" using assms by (intro exponent_mono) simp
  then have lt: "exponent x + 1 \<le> exponent y" using False by simp
  then have "- 1022 < exponent y" using exponent_ge [of x] by linarith
  then have "\<not> \<bar>y\<bar> < 2 powi (- 1021)" using exponent_small [of y] by auto
  moreover have "(2::real) powi (- 1022) \<le> 2 powi (- 1021)" by (rule p2_mono) simp
  ultimately have "2 powi (- 1022) \<le> y" using assms by linarith
  then have "2 powi (exponent y) \<le> round_real y" by (rule round_real_lower)
  moreover have "round_real x \<le> 2 powi (exponent x + 1)"
    using assms(1) by (rule round_real_upper)
  moreover have "(2::real) powi (exponent x + 1) \<le> 2 powi (exponent y)"
    using lt by (rule p2_mono)
  ultimately show ?thesis by linarith
qed

lemma round_real_mono:
  assumes "x \<le> y"
  shows "round_real x \<le> round_real y"
proof -
  consider "0 \<le> x" | "y \<le> 0" | "x < 0" "0 < y" by linarith
  then show ?thesis
  proof cases
    case 1
    then show ?thesis using assms by (rule round_real_mono_nonneg)
  next
    case 2
    then have "round_real (- y) \<le> round_real (- x)"
      using assms by (intro round_real_mono_nonneg) simp_all
    then show ?thesis by (simp add: round_real_minus)
  next
    case 3
    have "round_real (- x) \<ge> 0" using 3 by (intro round_real_nonneg) simp
    moreover have "round_real y \<ge> 0" using 3 by (intro round_real_nonneg) simp
    ultimately show ?thesis by (simp add: round_real_minus)
  qed
qed

subsection \<open>The values that rounding leaves alone\<close>

lemma exponent_lower':
  assumes "- 1022 < exponent x"
  shows "2 powi (exponent x) \<le> \<bar>x\<bar>"
proof -
  have "\<not> \<bar>x\<bar> < 2 powi (- 1021)" using exponent_small [of x] assms by auto
  moreover have "(2::real) powi (- 1022) \<le> 2 powi (- 1021)" by (rule p2_mono) simp
  ultimately have "2 powi (- 1022) \<le> \<bar>x\<bar>" by linarith
  then show ?thesis by (rule exponent_lower)
qed

lemma round_real_of_int_ulp:
  assumes "v / ulp v = of_int m"
  shows "round_real v = v"
proof -
  have "round_real v = of_int m * ulp v" by (simp add: round_real_def assms)
  also have "\<dots> = v" using ulp_pos [of v] by (simp flip: assms)
  finally show ?thesis .
qed

lemma round_real_grid:
  assumes v: "v = of_int n * 2 powi (k - 52)" and n: "\<bar>n\<bar> \<le> 2 ^ 53" and k: "- 1022 \<le> k"
  shows "round_real v = v"
proof -
  define e where "e = exponent v"
  have "\<bar>v\<bar> = of_int \<bar>n\<bar> * 2 powi (k - 52)"
    by (simp add: v abs_mult)
  also have "\<dots> \<le> of_int (2 ^ 53) * 2 powi (k - 52)"
  proof (rule mult_right_mono)
    show "(of_int \<bar>n\<bar> :: real) \<le> of_int (2 ^ 53)" using n by (simp only: of_int_le_iff)
    show "0 \<le> (2::real) powi (k - 52)" by simp
  qed
  also have "\<dots> = 2 powi (k + 1)" by (simp add: p2_split [of k])
  finally have le: "\<bar>v\<bar> \<le> 2 powi (k + 1)" .
  have ek: "e \<le> k + 1"
  proof (rule ccontr)
    assume "\<not> e \<le> k + 1"
    then have gt: "k + 1 < e" by simp
    then have "- 1022 < exponent v" using k by (simp add: e_def)
    then have "2 powi e \<le> \<bar>v\<bar>" unfolding e_def by (rule exponent_lower')
    then have "(2::real) powi e \<le> 2 powi (k + 1)" using le by linarith
    then show False using gt by (simp only: p2_le_iff)
  qed
  show ?thesis
  proof (cases "e \<le> k")
    case True
    have "v / ulp v = of_int n * (2 powi (k - 52) / 2 powi (e - 52))"
      by (simp add: v ulp_def e_def)
    also have "2 powi (k - 52) / 2 powi (e - 52) = (2::real) powi (k - e)"
      using p2_diff [of "k - 52" "e - 52"] by simp
    also have "\<dots> = of_int (2 ^ nat (k - e))" using True by (intro p2_nat) simp
    finally have "v / ulp v = of_int (n * 2 ^ nat (k - e))" by simp
    then show ?thesis by (rule round_real_of_int_ulp)
  next
    case False
    then have e: "e = k + 1" using ek by simp
    then have "- 1022 < exponent v" using k by (simp add: e_def)
    then have "2 powi e \<le> \<bar>v\<bar>" unfolding e_def by (rule exponent_lower')
    then have abs: "\<bar>v\<bar> = 2 powi (k + 1)" using le e by simp
    have "\<bar>v\<bar> / ulp v = 2 powi (k + 1) / 2 powi (k + 1 - 52)"
      using e by (simp add: abs ulp_def e_def)
    also have "\<dots> = 2 powi 52" using p2_diff [of "k + 1" "k + 1 - 52"] by simp
    finally have sc: "\<bar>v\<bar> / ulp v = of_int (2 ^ 52)" by simp
    show ?thesis
    proof (cases "0 \<le> v")
      case True
      then show ?thesis using sc by (intro round_real_of_int_ulp [of v "2 ^ 52"]) simp
    next
      case False
      then have "v / ulp v = of_int (- (2 ^ 52))" using sc by simp
      then show ?thesis by (rule round_real_of_int_ulp)
    qed
  qed
qed

lemma round_real_p2: "- 1074 \<le> j \<Longrightarrow> round_real (2 powi j) = 2 powi j"
proof -
  assume j: "- 1074 \<le> j"
  show ?thesis
  proof (cases "- 1022 \<le> j")
    case True
    have "(2::real) powi j = of_int (2 ^ 52) * 2 powi (j - 52)" by (simp add: p2_split' [of j])
    then show ?thesis using True by (intro round_real_grid [of _ "2 ^ 52" j]) simp_all
  next
    case False
    have "(2::real) powi j = 2 powi (j + 1074) * 2 powi (- 1022 - 52)"
      using p2_add [of "j + 1074" "- 1022 - 52"] by simp
    also have "(2::real) powi (j + 1074) = of_int (2 ^ nat (j + 1074))"
      using j by (intro p2_nat) simp
    finally have "(2::real) powi j = of_int (2 ^ nat (j + 1074)) * 2 powi (- 1022 - 52)" .
    moreover have "(2::int) ^ nat (j + 1074) \<le> 2 ^ 53"
      using False j by (intro power_increasing) simp_all
    ultimately show ?thesis by (intro round_real_grid [of _ "2 ^ nat (j + 1074)" "- 1022"]) simp_all
  qed
qed

lemma round_real_idem: "round_real (round_real x) = round_real x"
proof -
  define m where "m = x / ulp x"
  have "\<bar>m\<bar> \<le> 2 ^ 53" using scaled_upper [of x] ulp_pos [of x] by (simp add: m_def)
  then have m: "x / ulp x \<le> of_int (2 ^ 53)" "of_int (- (2 ^ 53)) \<le> x / ulp x"
    unfolding m_def [symmetric] by simp_all
  have "round_half_even (x / ulp x) \<le> 2 ^ 53" "- (2 ^ 53) \<le> round_half_even (x / ulp x)"
    using m(1) apply (rule round_half_even_le) using m(2) by (rule round_half_even_ge)
  then have "\<bar>round_half_even (x / ulp x)\<bar> \<le> 2 ^ 53" by simp
  then show ?thesis
    by (intro round_real_grid [of _ "round_half_even (x / ulp x)" "exponent x"])
       (simp_all add: round_real_def ulp_def exponent_ge)
qed

lemma round_half_even_gt: "of_int n - 1 / 2 < m \<Longrightarrow> n \<le> round_half_even m"
  using round_half_even_error [of m] by linarith

lemma representable_scaled:
  assumes "round_real a = a"
  shows "a = of_int (round_half_even (a / ulp a)) * ulp a"
  using assms by (simp add: round_real_def)

text \<open>Every representable number is a multiple of the smallest positive one.\<close>

lemma representable_multiple:
  assumes "round_real a = a"
  shows "\<exists>N. a = of_int N * 2 powi (- 1074)"
proof -
  define e where "e = exponent a"
  define w :: real where "w = 2 powi (- 1074)"
  define n where "n = round_half_even (a / ulp a)"
  have "e - 52 = (e + 1022) + (- 1074)" by simp
  then have "ulp a = 2 powi (e + 1022) * w"
    unfolding ulp_def e_def [symmetric] w_def by (simp only: p2_add)
  also have "(2::real) powi (e + 1022) = of_int (2 ^ nat (e + 1022))"
    using exponent_ge [of a] by (intro p2_nat) (simp add: e_def)
  finally have u: "ulp a = of_int (2 ^ nat (e + 1022)) * w" .
  have "a = of_int n * ulp a" using representable_scaled [OF assms] by (simp only: n_def)
  also have "\<dots> = of_int (n * 2 ^ nat (e + 1022)) * w"
    by (simp only: u of_int_mult mult.assoc)
  finally show ?thesis unfolding w_def ..
qed

lemma representable_gap:
  assumes "round_real a = a" "round_real b = b" "a < b"
  shows "a + 2 powi (- 1074) \<le> b"
proof -
  define w :: real where "w = 2 powi (- 1074)"
  have w: "0 < w" unfolding w_def by (rule p2_pos)
  obtain M N where a: "a = of_int M * w" and b: "b = of_int N * w"
    using representable_multiple assms(1,2) unfolding w_def by blast
  have "of_int M * w < of_int N * w" using assms(3) a b by simp
  then have "(of_int M :: real) < of_int N"
    using w by (simp only: mult_less_cancel_right_pos)
  then have "M + 1 \<le> N" by simp
  then have "(of_int (M + 1) :: real) \<le> of_int N" by (simp only: of_int_le_iff)
  then have "of_int (M + 1) * w \<le> of_int N * w"
    using w by (intro mult_right_mono) simp_all
  then have "a + w \<le> b" by (simp add: a b algebra_simps)
  then show ?thesis by (simp only: w_def)
qed

subsection \<open>The rounded square root of a rounded square\<close>

lemma sqrt_small_gt:
  assumes a: "0 \<le> a" "a < 2 powi (- 511)" and T: "a\<^sup>2 + 2 powi (- 1075) \<le> T"
  shows "a < round_real (sqrt T)"
proof -
  define y where "y = sqrt T"
  define h :: real where "h = 2 powi (- 565)"
  define g :: real where "g = 2 powi (- 510)"
  define b :: real where "b = 2 powi (- 511)"
  have h: "0 < h" and g: "0 < g" and b: "0 < b" by (simp_all only: h_def g_def b_def p2_pos)
  have hg: "h * g = 2 powi (- 1075)"
    unfolding h_def g_def using p2_add [of "- 565" "- 510"] by simp
  have bg: "b + b = g"
    unfolding b_def g_def using p2_add [of 1 "- 511"] by simp
  have T0: "0 < T" using T p2_pos [of "- 1075"] zero_le_power2 [of a] by linarith
  then have y0: "0 < y" and y2: "y\<^sup>2 = T" by (simp_all add: y_def)
  show ?thesis
  proof (cases "b \<le> y")
    case True
    then have "round_real b \<le> round_real y" by (rule round_real_mono)
    moreover have "round_real b = b" unfolding b_def by (rule round_real_p2) simp
    ultimately show ?thesis using a(2) by (simp add: y_def b_def)
  next
    case False
    then have yb: "y < b" by simp
    have "exponent y \<le> - 512"
    proof (rule ccontr)
      assume "\<not> exponent y \<le> - 512"
      then have e: "- 511 \<le> exponent y" by simp
      then have "2 powi (exponent y) \<le> \<bar>y\<bar>" by (intro exponent_lower') simp
      moreover have "b \<le> 2 powi (exponent y)" unfolding b_def using e by (rule p2_mono)
      ultimately show False using yb y0 by simp
    qed
    then have "ulp y \<le> 2 powi (- 564)" unfolding ulp_def by (intro p2_mono) simp
    also have "(2::real) powi (- 564) = h + h"
      unfolding h_def using p2_add [of 1 "- 565"] by simp
    finally have "\<bar>round_real y - y\<bar> \<le> h" using round_real_error [of y] by linarith
    moreover have "h < y - a"
    proof (rule ccontr)
      assume "\<not> h < y - a"
      then have le: "y - a \<le> h" by simp
      have ya: "y + a < g" using yb a(2) bg by (simp add: b_def)
      have pos: "0 < y + a" using y0 a(1) by simp
      have "(y - a) * (y + a) \<le> h * (y + a)" using le pos by (intro mult_right_mono) simp_all
      also have "\<dots> < h * g" using ya h by (intro mult_strict_left_mono)
      finally have "(y - a) * (y + a) < h * g" .
      then have "y\<^sup>2 - a\<^sup>2 < h * g" by (simp add: power2_eq_square algebra_simps)
      moreover have "a\<^sup>2 + h * g \<le> T" using T by (simp only: hg)
      ultimately show False using y2 by linarith
    qed
    ultimately show ?thesis by (simp add: y_def abs_le_iff)
  qed
qed

lemma sqrt_square_ge:
  assumes r: "round_real a = a" and a: "2 powi (- 511) \<le> a"
  shows "a \<le> round_real (sqrt (round_real (a\<^sup>2)))"
proof -
  define k where "k = exponent a"
  define P :: real where "P = 2 powi k"
  define u where "u = ulp a"
  define n where "n = round_half_even (a / u)"
  have a0: "0 < a" using a p2_pos [of "- 511"] by linarith
  have u0: "0 < u" unfolding u_def by (rule ulp_pos)
  have P0: "0 < P" unfolding P_def by (rule p2_pos)
  have "(2::real) powi (- 1022) \<le> 2 powi (- 511)" by (rule p2_mono) simp
  then have "2 powi (- 1022) \<le> \<bar>a\<bar>" using a by simp
  then have lo: "P \<le> a" unfolding P_def k_def using exponent_lower [of a] a0 by simp
  have up: "a < 2 powi (k + 1)" unfolding k_def using exponent_upper [of a] a0 by simp
  have k: "- 511 \<le> k"
  proof -
    have "(2::real) powi (- 511) < 2 powi (k + 1)" using a up by linarith
    then have "- 511 < k + 1" by (simp only: p2_less_iff)
    then show ?thesis by simp
  qed
  have Pu: "P = 2 ^ 52 * u" unfolding P_def u_def ulp_def k_def [symmetric] by (rule p2_split')
  have an: "a = of_int n * u" unfolding n_def u_def using r by (rule representable_scaled)
  show ?thesis
  proof (cases "a = P")
    case True
    have "a\<^sup>2 = 2 powi (k + k)" unfolding True P_def by (simp only: p2_add power2_eq_square)
    moreover have "round_real (2 powi (k + k)) = 2 powi (k + k)" using k by (intro round_real_p2) simp
    ultimately have "round_real (a\<^sup>2) = a\<^sup>2" by simp
    then show ?thesis using a0 r by simp
  next
    case False
    then have "P < a" using lo by simp
    then have "of_int (2 ^ 52) * u < of_int n * u" using an Pu by simp
    then have "(of_int (2 ^ 52) :: real) < of_int n"
      using u0 by (simp only: mult_less_cancel_right_pos)
    then have "2 ^ 52 < n" by (simp only: of_int_less_iff)
    then have "2 ^ 52 + 1 \<le> n" by simp
    then have "(of_int (2 ^ 52 + 1) :: real) \<le> of_int n" by (simp only: of_int_le_iff)
    then have "of_int (2 ^ 52 + 1) * u \<le> of_int n * u" using u0 by (intro mult_right_mono) simp_all
    then have aPu: "P + u \<le> a" by (simp add: an Pu algebra_simps)
    define S where "S = round_real (a\<^sup>2)"
    define y where "y = sqrt S"
    have S0: "0 \<le> S" unfolding S_def by (rule round_real_nonneg) simp
    have "a\<^sup>2 < 2 powi (k + 1) * 2 powi (k + 1)"
      unfolding power2_eq_square using up a0 by (intro mult_strict_mono) simp_all
    also have "\<dots> = 2 powi (k + k + 2)" using p2_add [of "k + 1" "k + 1"] by (simp add: algebra_simps)
    finally have a2: "a\<^sup>2 < 2 powi (k + k + 2)" .
    have ex: "exponent (a\<^sup>2) \<le> k + k + 1"
    proof (rule ccontr)
      assume "\<not> exponent (a\<^sup>2) \<le> k + k + 1"
      then have e: "k + k + 2 \<le> exponent (a\<^sup>2)" by simp
      then have "2 powi (exponent (a\<^sup>2)) \<le> \<bar>a\<^sup>2\<bar>" using k by (intro exponent_lower') simp
      moreover have "(2::real) powi (k + k + 2) \<le> 2 powi (exponent (a\<^sup>2))" using e by (rule p2_mono)
      ultimately show False using a2 by simp
    qed
    have "ulp (a\<^sup>2) \<le> 2 powi (k + k + 1 - 52)" unfolding ulp_def using ex by (intro p2_mono) simp
    also have "\<dots> = 2 powi (k + 1) * u"
      unfolding u_def ulp_def k_def [symmetric] using p2_add [of "k + 1" "k - 52"] by (simp add: algebra_simps)
    also have "\<dots> = 2 * P * u" unfolding P_def using p2_add [of 1 k] by (simp add: add.commute)
    finally have "\<bar>S - a\<^sup>2\<bar> \<le> P * u" unfolding S_def using round_real_error [of "a\<^sup>2"] by linarith
    then have S: "a\<^sup>2 - P * u \<le> S" by linarith
    show ?thesis
    proof (cases "a \<le> y")
      case True
      then have "round_real a \<le> round_real y" by (rule round_real_mono)
      then show ?thesis by (simp add: r y_def S_def)
    next
      case False
      then have ya: "y < a" by simp
      have "(P + u) * u \<le> a * u" using aPu u0 by (intro mult_right_mono) simp_all
      then have "(a - u / 2)\<^sup>2 \<le> a\<^sup>2 - P * u - 3 / 4 * u\<^sup>2"
        by (simp add: power2_eq_square algebra_simps)
      also have "\<dots> < a\<^sup>2 - P * u" using u0 by simp
      finally have "(a - u / 2)\<^sup>2 < S" using S by linarith
      then have ylo: "a - u / 2 < y" unfolding y_def by (rule real_less_rsqrt)
      then have yP: "P \<le> y" using aPu u0 by linarith
      have "0 < y" using yP P0 by linarith
      then have "2 powi k \<le> \<bar>y\<bar>" "\<bar>y\<bar> < 2 powi (k + 1)" "- 1022 \<le> k"
        using yP ya up k by (simp_all add: P_def)
      then have "exponent y = k" by (rule exponent_eqI)
      then have uy: "ulp y = u" by (simp add: ulp_def u_def k_def)
      have "(a - u / 2) / u < y / u" using ylo u0 by (rule divide_strict_right_mono)
      then have "a / u - 1 / 2 < y / u" using u0 by (simp add: diff_divide_distrib)
      moreover have "a / u = of_int n" using an u0 by simp
      ultimately have "n \<le> round_half_even (y / u)" by (intro round_half_even_gt) simp
      then have "(of_int n :: real) \<le> of_int (round_half_even (y / u))" by (simp only: of_int_le_iff)
      then have "of_int n * u \<le> of_int (round_half_even (y / u)) * u"
        using u0 by (intro mult_right_mono) simp_all
      also have "\<dots> = round_real y" by (simp only: round_real_def uy)
      finally show ?thesis unfolding y_def S_def using an by simp
    qed
  qed
qed

subsection \<open>The place of a double on the real line\<close>

lemma overflow_p2: "overflow = 2 powi 1024"
  by (simp add: overflow_def)

lemma overflow_pos: "0 < overflow"
  by (simp only: overflow_p2 p2_pos)

lemma ordinary_round: "ordinary (round_to_double x)"
  by (simp add: round_to_double_def ordinary_def Let_def)

lemma double_value_round: "double_value (round_to_double x) = rounded x"
proof -
  have "0 \<le> round_real x" if "0 \<le> x" using that by (rule round_real_nonneg)
  moreover have "round_real x \<le> 0" if "x < 0"
    using round_real_nonneg [of "- x"] that by (simp add: round_real_minus)
  ultimately show ?thesis
    using overflow_pos
    by (auto simp: round_to_double_def double_value_def rounded_def Let_def not_le)
qed

lemma double_less_value: "ordinary a \<Longrightarrow> ordinary b \<Longrightarrow> double_less a b = (double_value a < double_value b)"
  using overflow_pos by (cases a; cases b) (auto simp: ordinary_def double_value_def)

lemma double_eq_value: "ordinary a \<Longrightarrow> ordinary b \<Longrightarrow> double_eq a b = (double_value a = double_value b)"
  using overflow_pos by (cases a; cases b) (auto simp: ordinary_def double_value_def)

lemma double_le_value: "ordinary a \<Longrightarrow> ordinary b \<Longrightarrow> double_le a b = (double_value a \<le> double_value b)"
  by (auto simp: double_le_def double_less_value double_eq_value)

lemma ordinary_abs: "ordinary a \<Longrightarrow> ordinary (double_abs a)"
  by (cases a) (auto simp: ordinary_def)

lemma double_value_abs: "ordinary a \<Longrightarrow> double_value (double_abs a) = \<bar>double_value a\<bar>"
  using overflow_pos by (cases a) (auto simp: double_value_def ordinary_def)

lemma rounded_mono: "x \<le> y \<Longrightarrow> rounded x \<le> rounded y"
  using round_real_mono [of x y] by (simp add: rounded_def max_def min_def)

lemma rounded_minus: "rounded (- x) = - rounded x"
  using overflow_pos by (simp add: rounded_def round_real_minus max_def min_def)

lemma rounded_0 [simp]: "rounded 0 = 0"
  using overflow_pos by (simp add: rounded_def)

lemma rounded_nonneg: "0 \<le> x \<Longrightarrow> 0 \<le> rounded x"
  using rounded_mono [of 0 x] by simp

lemma rounded_le: "rounded x \<le> overflow"
  using overflow_pos by (simp add: rounded_def)

lemma rounded_ge: "- overflow \<le> rounded x"
  by (simp add: rounded_def)

lemma round_real_overflow: "round_real overflow = overflow"
  unfolding overflow_p2 by (rule round_real_p2) simp

lemma rounded_overflow: "overflow \<le> x \<Longrightarrow> rounded x = overflow"
  using round_real_mono [of overflow x] overflow_pos
  by (simp add: rounded_def round_real_overflow)

lemma rounded_cases:
  "(overflow \<le> round_real x \<and> rounded x = overflow) \<or>
   (round_real x \<le> - overflow \<and> rounded x = - overflow) \<or>
   (\<bar>round_real x\<bar> < overflow \<and> rounded x = round_real x)"
  using overflow_pos unfolding rounded_def by linarith

lemma rounded_inside: "\<bar>rounded x\<bar> < overflow \<Longrightarrow> rounded x = round_real x"
  using rounded_cases [of x] overflow_pos by linarith

lemma rounded_representable: "\<bar>rounded x\<bar> < overflow \<Longrightarrow> round_real (rounded x) = rounded x"
  using rounded_inside [of x] round_real_idem [of x] by simp

lemma rounded_idem: "rounded (rounded x) = rounded x"
proof (cases "\<bar>rounded x\<bar> < overflow")
  case True
  have "round_real (rounded x) = rounded x" using True by (rule rounded_representable)
  then show ?thesis using True rounded_cases [of "rounded x"] by linarith
next
  case False
  then have "rounded x = overflow \<or> rounded x = - overflow" using rounded_le [of x] rounded_ge [of x] by linarith
  then show ?thesis using rounded_overflow [of overflow] rounded_minus [of overflow] by auto
qed

lemma overflow_ge_1: "1 \<le> overflow"
  unfolding overflow_p2 using p2_mono [of 0 1024] by simp

lemma round_real_abs: "round_real \<bar>x\<bar> = \<bar>round_real x\<bar>"
proof (cases "0 \<le> x")
  case True
  then show ?thesis using round_real_nonneg [of x] by simp
next
  case False
  then have "0 \<le> round_real (- x)" by (intro round_real_nonneg) simp
  then show ?thesis using False by (simp add: round_real_minus)
qed

lemma ordinary_eqI: "ordinary a \<Longrightarrow> ordinary b \<Longrightarrow> double_value a = double_value b \<Longrightarrow> a = b"
  using overflow_pos by (cases a; cases b) (auto simp: ordinary_def double_value_def)

lemma ordinary_pow2: "ordinary d \<Longrightarrow> ordinary (double_pow2 d)"
  by (cases d) (simp_all add: ordinary_round, simp_all add: ordinary_def)

lemma square_overflow: "overflow \<le> overflow\<^sup>2"
  using overflow_ge_1 by (simp add: power2_eq_square)

lemma double_value_pow2: "ordinary d \<Longrightarrow> double_value (double_pow2 d) = rounded ((double_value d)\<^sup>2)"
proof (cases d)
  case (Finite v)
  then show ?thesis by (simp add: double_value_round) (simp add: double_value_def)
next
  case PlusInfinity
  then show ?thesis using rounded_overflow [OF square_overflow] by (simp add: double_value_def)
next
  case MinusInfinity
  then show ?thesis using rounded_overflow [OF square_overflow] by (simp add: double_value_def)
next
  case NaN
  assume "ordinary d"
  then show ?thesis using NaN by (simp add: ordinary_def)
qed

lemma double_value_add:
  assumes "ordinary a" "ordinary b" "0 \<le> double_value a" "0 \<le> double_value b"
  shows "ordinary (double_add a b) \<and> double_value (double_add a b) = rounded (double_value a + double_value b)"
proof (cases a)
  case a: (Finite x)
  show ?thesis
  proof (cases b)
    case (Finite y)
    then show ?thesis using a by (simp add: ordinary_round double_value_round) (simp add: double_value_def)
  next
    case PlusInfinity
    have "rounded (x + overflow) = overflow" using assms(3) a by (intro rounded_overflow) (simp add: double_value_def)
    then show ?thesis using a PlusInfinity by (simp add: ordinary_def double_value_def)
  next
    case MinusInfinity
    then show ?thesis using assms(4) overflow_pos by (simp add: double_value_def)
  next
    case NaN
    then show ?thesis using assms(2) by (simp add: ordinary_def)
  qed
next
  case a: PlusInfinity
  have "rounded (overflow + double_value b) = overflow" using assms(4) by (intro rounded_overflow) simp
  moreover have "double_add PlusInfinity b = PlusInfinity"
    using assms(2,4) overflow_pos by (cases b) (simp_all add: ordinary_def double_value_def)
  ultimately show ?thesis using a by (simp add: ordinary_def double_value_def)
next
  case MinusInfinity
  then show ?thesis using assms(3) overflow_pos by (simp add: double_value_def)
next
  case NaN
  then show ?thesis using assms(1) by (simp add: ordinary_def)
qed

lemma double_value_sqrt:
  assumes "ordinary a" "0 \<le> double_value a"
  shows "ordinary (double_sqrt a) \<and> double_value (double_sqrt a) = rounded_sqrt (double_value a)"
proof (cases a)
  case (Finite x)
  then show ?thesis using assms
    by (simp add: ordinary_round double_value_round) (simp add: double_value_def ordinary_def rounded_sqrt_def)
next
  case PlusInfinity
  then show ?thesis by (simp add: ordinary_def double_value_def rounded_sqrt_def)
next
  case MinusInfinity
  then show ?thesis using assms(2) overflow_pos by (simp add: double_value_def)
next
  case NaN
  then show ?thesis using assms(1) by (simp add: ordinary_def)
qed

lemma rounded_sqrt_le: "rounded_sqrt t \<le> overflow"
  by (simp add: rounded_sqrt_def rounded_le)

lemma rounded_sqrt_mono: "s \<le> t \<Longrightarrow> rounded_sqrt s \<le> rounded_sqrt t"
  by (auto simp: rounded_sqrt_def rounded_le intro: rounded_mono)

lemma rounded_sqrt_nonneg: "0 \<le> t \<Longrightarrow> 0 \<le> rounded_sqrt t"
  using overflow_pos by (auto simp: rounded_sqrt_def intro: rounded_nonneg)

lemma rounded_ge_of_round:
  assumes "a \<le> round_real y" "a < overflow"
  shows "a \<le> rounded y"
  using rounded_cases [of y] assms overflow_pos by linarith

lemma rounded_gt_of_round:
  assumes "a < round_real y" "a < overflow"
  shows "a < rounded y"
  using rounded_cases [of y] assms overflow_pos by linarith

lemma round_real_small_square:
  assumes "0 \<le> a" "a < 2 powi (- 511)"
  shows "a\<^sup>2 - 2 powi (- 1075) \<le> round_real (a\<^sup>2)"
proof -
  define w :: real where "w = 2 powi (- 1075)"
  have "a\<^sup>2 < (2 powi (- 511))\<^sup>2"
    using assms by (intro power_strict_mono) simp_all
  also have "\<dots> = 2 powi (- 1022)" using p2_add [of "- 511" "- 511"] by (simp add: power2_eq_square)
  also have "\<dots> \<le> 2 powi (- 1021)" by (rule p2_mono) simp
  finally have "\<bar>a\<^sup>2\<bar> < 2 powi (- 1021)" by simp
  then have "exponent (a\<^sup>2) = - 1022" by (rule exponent_small)
  then have "ulp (a\<^sup>2) = 2 powi (- 1074)" by (simp add: ulp_def)
  also have "\<dots> = w + w" unfolding w_def using p2_add [of 1 "- 1075"] by simp
  finally have "\<bar>round_real (a\<^sup>2) - a\<^sup>2\<bar> \<le> w" using round_real_error [of "a\<^sup>2"] by linarith
  then show ?thesis unfolding w_def by linarith
qed

lemma rounded_norm_prune:
  assumes Tc: "rounded Tc = Tc" and a: "a = \<bar>rounded \<delta>\<bar>" and aA: "a \<le> \<bar>A\<bar>" and le: "rounded_sqrt Tc \<le> a"
  shows "rounded_sqrt Tc \<le> rounded_norm A B"
proof (rule ccontr)
  assume "\<not> rounded_sqrt Tc \<le> rounded_norm A B"
  then have lt: "rounded_norm A B < rounded_sqrt Tc" by simp
  define Tr where "Tr = rounded (rounded (A\<^sup>2) + rounded (B\<^sup>2))"
  define s where "s = rounded (a\<^sup>2)"
  define w :: real where "w = 2 powi (- 1075)"
  have F: "rounded_norm A B = rounded_sqrt Tr" by (simp add: rounded_norm_def Tr_def)
  have a0: "0 \<le> a" by (simp add: a)
  have "a\<^sup>2 \<le> A\<^sup>2" using aA a0 by (simp add: abs_le_square_iff [symmetric])
  then have "rounded (a\<^sup>2) \<le> rounded (A\<^sup>2)" by (rule rounded_mono)
  moreover have "0 \<le> rounded (B\<^sup>2)" by (rule rounded_nonneg) simp
  ultimately have "rounded (rounded (a\<^sup>2)) \<le> Tr" unfolding Tr_def by (intro rounded_mono) simp
  then have sTr: "s \<le> Tr" by (simp add: s_def rounded_idem)
  have s0: "0 \<le> s" unfolding s_def by (rule rounded_nonneg) simp
  have TrTc: "Tr < Tc" using lt rounded_sqrt_mono [of Tc Tr] unfolding F by linarith
  have Tr_lt: "Tr < overflow"
  proof (rule ccontr)
    assume "\<not> Tr < overflow"
    then have "rounded_sqrt Tr = overflow" by (simp add: rounded_sqrt_def)
    then show False using lt rounded_sqrt_le [of Tc] by (simp add: F)
  qed
  have s_lt: "\<bar>s\<bar> < overflow" using sTr Tr_lt s0 by simp
  then have s: "s = round_real (a\<^sup>2)" unfolding s_def by (rule rounded_inside)
  have a_lt: "a < overflow"
  proof (rule ccontr)
    assume "\<not> a < overflow"
    then have "overflow \<le> a" by simp
    then have "overflow * 1 \<le> a * a" using overflow_ge_1 overflow_pos by (intro mult_mono) simp_all
    then have "rounded (a\<^sup>2) = overflow" by (intro rounded_overflow) (simp add: power2_eq_square)
    then show False using s_lt by (simp add: s_def)
  qed
  have ra: "round_real a = a"
    using rounded_representable [of \<delta>] a_lt by (simp add: a round_real_abs)
  have Tr0: "0 \<le> Tr" using s0 sTr by simp
  have FTr: "rounded_norm A B = rounded (sqrt Tr)" using Tr_lt by (simp add: F rounded_sqrt_def)
  show False
  proof (cases "2 powi (- 511) \<le> a")
    case True
    have "a \<le> round_real (sqrt s)" unfolding s using ra True by (rule sqrt_square_ge)
    then have "a \<le> rounded (sqrt s)" using a_lt by (rule rounded_ge_of_round)
    also have "\<dots> \<le> rounded (sqrt Tr)" using sTr by (intro rounded_mono) simp
    finally show False using lt le by (simp add: FTr)
  next
    case False
    then have small: "a < 2 powi (- 511)" by simp
    have Tc_lt: "Tc < overflow"
    proof (rule ccontr)
      assume "\<not> Tc < overflow"
      then have "rounded_sqrt Tc = overflow" by (simp add: rounded_sqrt_def)
      then show False using le a_lt by simp
    qed
    have "\<bar>Tc\<bar> < overflow" using Tc_lt TrTc Tr0 by simp
    then have rTc: "round_real Tc = Tc" using rounded_inside [of Tc] by (simp add: Tc)
    have "\<bar>Tr\<bar> < overflow" using Tr0 Tr_lt by simp
    then have rTr: "round_real Tr = Tr" unfolding Tr_def by (rule rounded_representable)
    have "Tr + 2 powi (- 1074) \<le> Tc" using rTr rTc TrTc by (rule representable_gap)
    moreover have "(2::real) powi (- 1074) = w + w"
      unfolding w_def using p2_add [of 1 "- 1075"] by simp
    moreover have "a\<^sup>2 - w \<le> s"
      unfolding s w_def using a0 small by (rule round_real_small_square)
    ultimately have "a\<^sup>2 + w \<le> Tc" using sTr by linarith
    then have "a < round_real (sqrt Tc)" unfolding w_def using a0 small by (intro sqrt_small_gt)
    then have "a < rounded (sqrt Tc)" using a_lt by (rule rounded_gt_of_round)
    then show False using le Tc_lt by (simp add: rounded_sqrt_def)
  qed
qed

subsection \<open>Distances in doubles\<close>

lemma distance_facts:
  "ordinary (distance p q) \<and>
   double_value (distance p q) =
     rounded_norm (rounded (x_coord p - x_coord q)) (rounded (y_coord p - y_coord q))"
proof -
  define dx where "dx = round_to_double (x_coord p - x_coord q)"
  define dy where "dy = round_to_double (y_coord p - y_coord q)"
  have ox: "ordinary (double_pow2 dx)" and oy: "ordinary (double_pow2 dy)"
    by (simp_all add: dx_def dy_def ordinary_pow2 ordinary_round)
  have vx: "double_value (double_pow2 dx) = rounded ((rounded (x_coord p - x_coord q))\<^sup>2)"
    and vy: "double_value (double_pow2 dy) = rounded ((rounded (y_coord p - y_coord q))\<^sup>2)"
    by (simp_all add: dx_def dy_def double_value_pow2 ordinary_round double_value_round)
  have nx: "0 \<le> double_value (double_pow2 dx)" and ny: "0 \<le> double_value (double_pow2 dy)"
    unfolding vx vy by (simp_all add: rounded_nonneg)
  note add = double_value_add [OF ox oy nx ny]
  have "0 \<le> double_value (double_add (double_pow2 dx) (double_pow2 dy))"
    using add nx ny by (simp add: rounded_nonneg)
  from double_value_sqrt [OF add [THEN conjunct1] this] add
  show ?thesis
    by (simp add: distance_def rounded_norm_def vx vy flip: dx_def dy_def)
qed

lemma ordinary_distance: "ordinary (distance p q)"
  using distance_facts by simp

lemma rounded_norm_abs: "rounded_norm \<bar>A\<bar> \<bar>B\<bar> = rounded_norm A B"
  by (simp add: rounded_norm_def)

lemma rounded_norm_commute: "rounded_norm A B = rounded_norm B A"
  by (simp add: rounded_norm_def add.commute)

lemma distance_commute: "distance p q = distance q p"
proof -
  have "rounded (x_coord p - x_coord q) = - rounded (x_coord q - x_coord p)"
    "rounded (y_coord p - y_coord q) = - rounded (y_coord q - y_coord p)"
    using rounded_minus [of "x_coord q - x_coord p"] rounded_minus [of "y_coord q - y_coord p"]
    by simp_all
  then have "double_value (distance p q) = double_value (distance q p)"
    by (simp add: distance_facts rounded_norm_def)
  then show ?thesis by (intro ordinary_eqI ordinary_distance)
qed

lemma rounded_norm_nonneg: "0 \<le> rounded_norm A B"
  unfolding rounded_norm_def
  by (intro rounded_sqrt_nonneg rounded_nonneg add_nonneg_nonneg) simp_all

lemma distance_nonneg: "0 \<le> double_value (distance p q)"
  by (simp add: distance_facts rounded_norm_nonneg)

text \<open>
  The pruning test of the nearest-neighbour search: a point whose rounded difference to
  the query in one coordinate is at least \<open>|delta|\<close> is not nearer than a point whose
  distance is at most \<open>|delta|\<close>, in the doubles the search compares.
\<close>

lemma distance_prune:
  assumes le: "double_value (distance q c) \<le> \<bar>rounded \<delta>\<bar>"
    and far: "\<bar>rounded \<delta>\<bar> \<le> \<bar>rounded (x_coord q - x_coord s)\<bar> \<or>
              \<bar>rounded \<delta>\<bar> \<le> \<bar>rounded (y_coord q - y_coord s)\<bar>"
  shows "double_value (distance q c) \<le> double_value (distance q s)"
proof -
  define Tc where "Tc = rounded (rounded ((rounded (x_coord q - x_coord c))\<^sup>2) +
                                 rounded ((rounded (y_coord q - y_coord c))\<^sup>2))"
  have Tc: "rounded Tc = Tc" by (simp add: Tc_def rounded_idem)
  have c: "double_value (distance q c) = rounded_sqrt Tc"
    by (simp add: distance_facts rounded_norm_def Tc_def)
  have s: "double_value (distance q s) =
      rounded_norm (rounded (x_coord q - x_coord s)) (rounded (y_coord q - y_coord s))"
    by (simp add: distance_facts)
  have le': "rounded_sqrt Tc \<le> \<bar>rounded \<delta>\<bar>" using le unfolding c .
  from far show ?thesis
  proof
    assume "\<bar>rounded \<delta>\<bar> \<le> \<bar>rounded (x_coord q - x_coord s)\<bar>"
    from rounded_norm_prune [OF Tc refl this le']
    show ?thesis unfolding c s .
  next
    assume "\<bar>rounded \<delta>\<bar> \<le> \<bar>rounded (y_coord q - y_coord s)\<bar>"
    from rounded_norm_prune [OF Tc refl this le']
    show ?thesis unfolding c s by (simp add: rounded_norm_commute)
  qed
qed

subsection \<open>Rounding concrete numbers\<close>

lemma overflow_gt: "2 ^ 53 < overflow"
  by (simp add: overflow_def)

lemma round_to_double_representable:
  assumes "round_real x = x" "\<bar>x\<bar> < overflow"
  shows "round_to_double x = Finite x"
  using assms by (simp add: round_to_double_def)

lemma round_real_of_int: "\<bar>n\<bar> \<le> 2 ^ 53 \<Longrightarrow> round_real (of_int n) = of_int n"
  by (rule round_real_grid [of _ n 52]) simp_all

lemma round_to_double_of_int:
  assumes "\<bar>n\<bar> \<le> 2 ^ 53"
  shows "round_to_double (of_int n) = Finite (of_int n)"
proof (rule round_to_double_representable)
  show "round_real (of_int n) = of_int n" using assms by (rule round_real_of_int)
  have "\<bar>real_of_int n\<bar> \<le> of_int (2 ^ 53)" using assms by (simp only: of_int_abs [symmetric] of_int_le_iff)
  then show "\<bar>real_of_int n\<bar> < overflow" using overflow_gt by simp
qed

lemma round_to_double_0 [simp]: "round_to_double 0 = Finite 0"
  using round_to_double_of_int [of 0] by simp

lemma round_to_double_1 [simp]: "round_to_double 1 = Finite 1"
  using round_to_double_of_int [of 1] by simp

lemma round_to_double_minus_1 [simp]: "round_to_double (- 1) = Finite (- 1)"
  using round_to_double_of_int [of "- 1"] by simp

lemma round_to_double_numeral:
  "numeral w \<le> (2 ^ 53 :: int) \<Longrightarrow> round_to_double (numeral w) = Finite (numeral w)"
  using round_to_double_of_int [of "numeral w"] by simp

lemma round_to_double_neg_numeral:
  "numeral w \<le> (2 ^ 53 :: int) \<Longrightarrow> round_to_double (- numeral w) = Finite (- numeral w)"
  using round_to_double_of_int [of "- numeral w"] by simp

lemma round_real_eval:
  assumes "2 powi k \<le> \<bar>x\<bar>" "\<bar>x\<bar> < 2 powi (k + 1)" "- 1022 \<le> k"
  shows "round_real x = of_int (round_half_even (x / 2 powi (k - 52))) * 2 powi (k - 52)"
  using exponent_eqI [OF assms] by (simp add: round_real_def ulp_def)

section \<open>Nearest neighbour\<close>

lemma ordinary_Finite_0: "ordinary (Finite 0)"
  using overflow_pos by (simp add: ordinary_def)

lemma double_value_Finite [simp]: "double_value (Finite v) = v"
  by (simp add: double_value_def)

text \<open>The search in terms of the places of the doubles it compares.\<close>

lemma findNeighbour_Node:
  "findNeighbour (Node l r mp nd) q c =
     (let c1 = (if double_value (distance mp q) < double_value (distance q c) then mp else c) in
      if double_value (distance mp q) = 0 then c1
      else
        let delta = rounded (split_coord nd mp - split_coord nd q);
            c2 = findNeighbour (if delta > 0 then l else r) q c1
        in if double_value (distance q c2) \<le> \<bar>delta\<bar> then c2
           else findNeighbour (if delta > 0 then r else l) q c2)"
  by (simp add: Let_def split_coord_def double_less_value double_eq_value double_le_value
      ordinary_distance ordinary_round ordinary_abs ordinary_Finite_0 double_value_abs
      double_value_round)

lemma findNeighbour_correct:
  "depths_from d t \<Longrightarrow> partitioned d t \<Longrightarrow>
   (findNeighbour t q c = c \<or> findNeighbour t q c \<in> set (inorder_walk t)) \<and>
   double_value (distance q (findNeighbour t q c)) \<le> double_value (distance q c) \<and>
   (\<forall>s \<in> set (inorder_walk t).
      double_value (distance q (findNeighbour t q c)) \<le> double_value (distance q s))"
proof (induction t arbitrary: d c)
  case Null
  then show ?case by simp
next
  case (Node l r mp nd)
  have nd: "nd = d" and dl: "depths_from (d + 1) l" and dr: "depths_from (d + 1) r"
    using Node.prems(1) by auto
  have pl: "partitioned (d + 1) l" and pr: "partitioned (d + 1) r"
    and left_le: "\<And>s. s \<in> set (inorder_walk l) \<Longrightarrow> split_coord d s \<le> split_coord d mp"
    and right_gt: "\<And>s. s \<in> set (inorder_walk r) \<Longrightarrow> split_coord d mp < split_coord d s"
    using Node.prems(2) by auto
  define c1 where
    "c1 = (if double_value (distance mp q) < double_value (distance q c) then mp else c)"
  define delta where "delta = rounded (split_coord nd mp - split_coord nd q)"
  define near where "near = (if delta > 0 then l else r)"
  define far where "far = (if delta > 0 then r else l)"
  define c2 where "c2 = findNeighbour near q c1"
  have c1: "c1 = c \<or> c1 = mp" "double_value (distance q c1) \<le> double_value (distance q c)"
    "double_value (distance q c1) \<le> double_value (distance q mp)"
    by (auto simp: c1_def distance_commute)
  have all: "set (inorder_walk (Node l r mp nd)) = set (inorder_walk near) \<union> {mp} \<union> set (inorder_walk far)"
    by (auto simp: near_def far_def)
  show ?case
  proof (cases "double_value (distance mp q) = 0")
    case True
    then have res: "findNeighbour (Node l r mp nd) q c = c1"
      by (simp add: findNeighbour_Node c1_def del: findNeighbour.simps)
    have "double_value (distance q c1) = 0"
      using True distance_nonneg [of q c] by (auto simp: c1_def distance_commute)
    then show ?thesis
      unfolding res using c1 distance_nonneg [of q] by auto
  next
    case False
    have IHnear: "(c2 = c1 \<or> c2 \<in> set (inorder_walk near)) \<and>
                  double_value (distance q c2) \<le> double_value (distance q c1) \<and>
                  (\<forall>s \<in> set (inorder_walk near).
                     double_value (distance q c2) \<le> double_value (distance q s))"
      unfolding c2_def near_def
      using Node.IH(1) [OF dl pl, of c1] Node.IH(2) [OF dr pr, of c1] by simp
    show ?thesis
    proof (cases "double_value (distance q c2) \<le> \<bar>delta\<bar>")
      case True
      then have res: "findNeighbour (Node l r mp nd) q c = c2"
        using False by (simp add: findNeighbour_Node c1_def delta_def c2_def near_def Let_def del: findNeighbour.simps)
      have far_ok: "double_value (distance q c2) \<le> double_value (distance q s)"
        if s: "s \<in> set (inorder_walk far)" for s
      proof -
        have m: "rounded (split_coord d q - split_coord d s) = - rounded (split_coord d s - split_coord d q)"
          using rounded_minus [of "split_coord d s - split_coord d q"] by simp
        have "\<bar>delta\<bar> \<le> \<bar>rounded (split_coord d q - split_coord d s)\<bar>"
        proof (cases "delta > 0")
          case True
          then have "s \<in> set (inorder_walk r)" using s by (simp add: far_def)
          from right_gt [OF this]
          have "delta \<le> rounded (split_coord d s - split_coord d q)"
            unfolding delta_def nd by (intro rounded_mono) simp
          then show ?thesis using True by (simp add: m)
        next
          case False
          then have "s \<in> set (inorder_walk l)" using s by (simp add: far_def)
          from left_le [OF this]
          have "rounded (split_coord d s - split_coord d q) \<le> delta"
            unfolding delta_def nd by (intro rounded_mono) simp
          then show ?thesis using False by (simp add: m)
        qed
        then have "\<bar>delta\<bar> \<le> \<bar>rounded (x_coord q - x_coord s)\<bar> \<or>
                   \<bar>delta\<bar> \<le> \<bar>rounded (y_coord q - y_coord s)\<bar>"
          by (auto simp: split_coord_def split: if_splits)
        with True show ?thesis unfolding delta_def by (rule distance_prune)
      qed
      show ?thesis
        unfolding res all using IHnear c1 far_ok by auto
    next
      case far_visited: False
      define c3 where "c3 = findNeighbour far q c2"
      have res: "findNeighbour (Node l r mp nd) q c = c3"
        using False far_visited
        by (simp add: findNeighbour_Node c1_def delta_def c2_def c3_def near_def far_def Let_def del: findNeighbour.simps)
      have IHfar: "(c3 = c2 \<or> c3 \<in> set (inorder_walk far)) \<and>
                  double_value (distance q c3) \<le> double_value (distance q c2) \<and>
                  (\<forall>s \<in> set (inorder_walk far).
                     double_value (distance q c3) \<le> double_value (distance q s))"
        unfolding c3_def far_def
        using Node.IH(1) [OF dl pl, of c2] Node.IH(2) [OF dr pr, of c2] by simp
      show ?thesis
        unfolding res all using IHnear IHfar c1 by (auto intro: order_trans)
    qed
  qed
qed

text \<open>
  C3, as amended. On every reachable set that is not empty, \<open>nearest(q)\<close> returns a
  stored point, and no stored point has a strictly smaller distance to \<open>q\<close> than it, the
  distances being the doubles that \<open>Point::distance\<close> returns and \<open><\<close> their comparison:
  the pruning by \<open>|delta|\<close> skips no point that the search would have preferred.
\<close>

theorem nearest_is_closest:
  assumes "reachable isRight0 nth_element s" and "m_root s \<noteq> Null"
  shows "\<exists>p. nearest s q = Inr (Some p) \<and> p \<in> set (inorder_walk (m_root s)) \<and>
             (\<forall>r \<in> set (inorder_walk (m_root s)). \<not> double_less (distance q r) (distance q p))"
proof -
  from assms(2) obtain l r mp nd where rt: "m_root s = Node l r mp nd"
    by (cases "m_root s") auto
  have wf: "depths_from 0 (m_root s)" "partitioned 0 (m_root s)"
    using reachable_well_formed [OF assms(1)] by (simp_all add: well_formed_def)
  have mp: "mp \<in> set (inorder_walk (m_root s))" using rt by simp
  from findNeighbour_correct [OF wf, of q mp] mp
  have "findNeighbour (m_root s) q mp \<in> set (inorder_walk (m_root s))"
    "\<forall>r \<in> set (inorder_walk (m_root s)).
       double_value (distance q (findNeighbour (m_root s) q mp)) \<le> double_value (distance q r)"
    by auto
  moreover have "nearest s q = Inr (Some (findNeighbour (m_root s) q mp))"
    by (simp add: nearest_def rt)
  ultimately show ?thesis
    by (intro exI [of _ "findNeighbour (m_root s) q mp"])
       (simp add: double_less_value ordinary_distance not_less)
qed

theorem nearest_is_closest_witness:
  "\<exists>p. nearest \<lparr>max_depth = 1,
                 m_root = Node (Node Null Null (Point 1 1) 1) (Node Null Null (Point 4 0) 1) (Point 3 4) 0,
                 m_size = 3\<rparr> (Point 0 0) = Inr (Some p) \<and>
       p \<in> set [Point 1 1, Point 3 4, Point 4 0] \<and>
       (\<forall>r \<in> set [Point 1 1, Point 3 4, Point 4 0].
          \<not> double_less (distance (Point 0 0) r) (distance (Point 0 0) p))"
  using nearest_is_closest [OF example_reachable, of "Point 0 0"] by simp

text \<open>
  In exact arithmetic the claim fails. The set holds \<open>(0, 0)\<close> and \<open>(0, 1)\<close>, put in this
  order, and the query is \<open>(10^8, 1)\<close>. The squared distance to \<open>(0, 0)\<close> is \<open>10^16 + 1\<close>,
  which lies halfway between two doubles and rounds to \<open>10^16\<close>, the squared distance to
  \<open>(0, 1)\<close>. The two distances are equal doubles, the search keeps the root \<open>(0, 0)\<close>
  and prunes the subtree of \<open>(0, 1)\<close>, which is strictly closer.
\<close>

theorem nearest_misses_closer_point:
  "puts False nth_element_sort [Point 0 0, Point 0 1] empty_PointSet =
     Some (Inr \<lparr>max_depth = 1, m_root = Node (Node Null Null (Point 0 1) 1) Null (Point 0 0) 0,
                m_size = 2\<rparr>) \<and>
   nearest \<lparr>max_depth = 1, m_root = Node (Node Null Null (Point 0 1) 1) Null (Point 0 0) 0,
            m_size = 2\<rparr> (Point 100000000 1) = Inr (Some (Point 0 0)) \<and>
   euclidean (Point 100000000 1) (Point 0 1) < euclidean (Point 100000000 1) (Point 0 0)"
proof -
  have a: "round_to_double 10000000000000000 = Finite 10000000000000000"
    by (intro round_to_double_representable round_real_grid [of _ 5000000000000000 53])
       (simp_all add: overflow_def)
  have "round_real 10000000000000001 = 10000000000000000"
    by (subst round_real_eval [of 53]) (simp_all add: round_half_even_def)
  then have b: "round_to_double 10000000000000001 = Finite 10000000000000000"
    by (simp add: round_to_double_def overflow_def)
  have c: "sqrt 10000000000000000 = 100000000"
    by (rule real_sqrt_unique) simp_all
  have d0: "distance (Point 0 0) (Point 100000000 1) = Finite 100000000"
    by (simp add: distance_def round_to_double_numeral round_to_double_neg_numeral a b c)
  have d1: "distance (Point 100000000 1) (Point 0 0) = Finite 100000000"
    by (simp add: distance_def round_to_double_numeral a b c)
  have "nearest \<lparr>max_depth = 1, m_root = Node (Node Null Null (Point 0 1) 1) Null (Point 0 0) 0,
            m_size = 2\<rparr> (Point 100000000 1) = Inr (Some (Point 0 0))"
    by (simp add: nearest_def d0 d1 round_to_double_neg_numeral double_le_def)
  moreover have "(100000000::real) < sqrt 10000000000000001"
    by (rule real_less_rsqrt) simp
  then have "euclidean (Point 100000000 1) (Point 0 1) < euclidean (Point 100000000 1) (Point 0 0)"
    by (simp add: euclidean_def)
  moreover have "puts False nth_element_sort [Point 0 0, Point 0 1] empty_PointSet =
     Some (Inr \<lparr>max_depth = 1, m_root = Node (Node Null Null (Point 0 1) 1) Null (Point 0 0) 0,
                m_size = 2\<rparr>)"
    by (simp add: eval_put)
  ultimately show ?thesis by simp
qed

section \<open>k nearest neighbours\<close>

lemma max_element_loop_greatest:
  "largest < first \<Longrightarrow> first \<le> length v \<Longrightarrow>
   (\<forall>j < first. f (v ! j) \<le> f (v ! largest)) \<Longrightarrow>
   max_element_loop v (\<lambda>lhs rhs. f lhs \<le> f rhs) largest first < length v \<and>
   (\<forall>j < length v. f (v ! j) \<le> (f (v ! max_element_loop v (\<lambda>lhs rhs. f lhs \<le> f rhs) largest first) :: real))"
proof (induction v "\<lambda>lhs rhs. f lhs \<le> f rhs" largest first rule: max_element_loop.induct)
  case (1 v largest first)
  show ?case
  proof (cases "first < length v")
    case False
    then show ?thesis
      using "1.prems" by (subst (1 2) max_element_loop.simps) auto
  next
    case True
    define largest' where "largest' = (if f (v ! largest) \<le> f (v ! first) then first else largest)"
    have a: "largest' < first + 1" using "1.prems"(1) by (simp add: largest'_def)
    have b: "first + 1 \<le> length v" using True by simp
    have c: "\<forall>j < first + 1. f (v ! j) \<le> f (v ! largest')"
    proof (intro allI impI)
      fix j assume "j < first + 1"
      then consider "j < first" | "j = first" by linarith
      then show "f (v ! j) \<le> f (v ! largest')"
      proof cases
        case 1
        then have "f (v ! j) \<le> f (v ! largest)" using "1.prems"(3) by simp
        then show ?thesis by (auto simp: largest'_def)
      next
        case 2
        then show ?thesis by (auto simp: largest'_def)
      qed
    qed
    have "max_element_loop v (\<lambda>lhs rhs. f lhs \<le> f rhs) largest first =
          max_element_loop v (\<lambda>lhs rhs. f lhs \<le> f rhs) largest' (first + 1)"
      using True by (subst max_element_loop.simps) (simp add: largest'_def)
    then show ?thesis
      using "1.hyps" [OF True a [unfolded largest'_def] b c [unfolded largest'_def]]
      by (simp add: largest'_def)
  qed
qed

lemma max_element_greatest:
  assumes "v \<noteq> []"
  shows "max_element v (\<lambda>lhs rhs. f lhs \<le> f rhs) < length v \<and>
         (\<forall>b \<in> set v. f b \<le> (f (v ! max_element v (\<lambda>lhs rhs. f lhs \<le> f rhs)) :: real))"
proof -
  have "0 < (1::nat)" "1 \<le> length v" "\<forall>j < 1. f (v ! j) \<le> f (v ! 0)"
    using assms by (auto simp: Suc_le_eq)
  from max_element_loop_greatest [OF this]
  show ?thesis using assms by (auto simp: max_element_def in_set_conv_nth)
qed


lemma length_nearest_step:
  "length acc \<le> k \<Longrightarrow>
   length (nearest_step q k p acc) = (if length acc < k then length acc + 1 else length acc)"
  by (simp add: nearest_step_def Let_def)

lemma length_fold_nearest_step:
  "length acc \<le> k \<Longrightarrow>
   length (foldl (\<lambda>a p. nearest_step q k p a) acc xs) = min k (length acc + length xs)"
proof (induction xs arbitrary: acc)
  case Nil
  then show ?case by simp
next
  case (Cons x xs)
  have "length (nearest_step q k x acc) \<le> k"
    using Cons.prems by (simp add: length_nearest_step)
  from Cons.IH [OF this] Cons.prems show ?case
    by (simp add: length_nearest_step)
qed

lemma nearest_step_keeps_closest:
  assumes k: "0 < k" and len: "length acc \<le> k" and full: "rej \<noteq> [] \<longrightarrow> length acc = k"
    and inv: "\<forall>a \<in> set rej. \<forall>b \<in> set acc. double_value (distance b q) \<le> double_value (distance a q)"
  shows "\<exists>rej'. mset (nearest_step q k p acc) + mset rej' = mset acc + mset rej + {#p#} \<and>
           (rej' \<noteq> [] \<longrightarrow> length (nearest_step q k p acc) = k) \<and>
           (\<forall>a \<in> set rej'. \<forall>b \<in> set (nearest_step q k p acc). double_value (distance b q) \<le> double_value (distance a q))"
proof (cases "length acc < k")
  case True
  then have "rej = []" using full by auto
  moreover have "nearest_step q k p acc = acc @ [p]" using True by (simp add: nearest_step_def)
  ultimately show ?thesis by (intro exI [of _ "[]"]) simp
next
  case False
  then have lk: "length acc = k" using len by simp
  then have ne: "acc \<noteq> []" using k by auto
  define md where "md = max_element acc (\<lambda>lhs rhs. double_le (distance lhs q) (distance rhs q))"
  have cmp: "(\<lambda>lhs rhs. double_le (distance lhs q) (distance rhs q)) =
             (\<lambda>lhs rhs. double_value (distance lhs q) \<le> double_value (distance rhs q))"
    by (simp add: double_le_value ordinary_distance)
  have md: "md < length acc"
    "\<And>b. b \<in> set acc \<Longrightarrow> double_value (distance b q) \<le> double_value (distance (acc ! md) q)"
    using max_element_greatest [OF ne, of "\<lambda>x. double_value (distance x q)"]
    by (auto simp: md_def cmp)
  show ?thesis
  proof (cases "double_value (distance p q) < double_value (distance (acc ! md) q)")
    case True
    then have res: "nearest_step q k p acc = acc[md := p]"
      using False by (simp add: nearest_step_def md_def double_less_value ordinary_distance)
    have "acc ! md \<in># mset acc" using md(1) by simp
    then have m: "mset (acc[md := p]) + mset (acc ! md # rej) = mset acc + mset rej + {#p#}"
      using md(1) by (simp add: mset_update)
    have sub: "set (acc[md := p]) \<subseteq> insert p (set acc)" by (rule set_update_subset_insert)
    have "double_value (distance b q) \<le> double_value (distance a q)"
      if "a \<in> set (acc ! md # rej)" "b \<in> set (acc[md := p])" for a b
    proof -
      have a: "double_value (distance (acc ! md) q) \<le> double_value (distance a q)"
        using that(1) inv md(1) by (auto simp: nth_mem)
      have "double_value (distance b q) \<le> double_value (distance (acc ! md) q)"
        using that(2) sub md(2) True by auto
      with a show ?thesis by simp
    qed
    then show ?thesis
      unfolding res using m lk by (intro exI [of _ "acc ! md # rej"]) auto
  next
    case no: False
    then have res: "nearest_step q k p acc = acc"
      using False by (simp add: nearest_step_def md_def double_less_value ordinary_distance)
    have "double_value (distance b q) \<le> double_value (distance a q)" if "a \<in> set (p # rej)" "b \<in> set acc" for a b
      using that inv md(2) [OF that(2)] no by auto
    then show ?thesis
      unfolding res using lk by (intro exI [of _ "p # rej"]) auto
  qed
qed

lemma fold_nearest_step_keeps_closest:
  "0 < k \<Longrightarrow> length acc \<le> k \<Longrightarrow> (rej \<noteq> [] \<longrightarrow> length acc = k) \<Longrightarrow>
   (\<forall>a \<in> set rej. \<forall>b \<in> set acc. double_value (distance b q) \<le> double_value (distance a q)) \<Longrightarrow>
   \<exists>rej'. mset (foldl (\<lambda>a p. nearest_step q k p a) acc xs) + mset rej' =
            mset acc + mset rej + mset xs \<and>
          (\<forall>a \<in> set rej'. \<forall>b \<in> set (foldl (\<lambda>a p. nearest_step q k p a) acc xs).
             double_value (distance b q) \<le> double_value (distance a q))"
proof (induction xs arbitrary: acc rej)
  case Nil
  then show ?case by (intro exI [of _ rej]) simp
next
  case (Cons x xs)
  from nearest_step_keeps_closest [OF Cons.prems, of x]
  obtain rej1 where r1: "mset (nearest_step q k x acc) + mset rej1 = mset acc + mset rej + {#x#}"
    "rej1 \<noteq> [] \<longrightarrow> length (nearest_step q k x acc) = k"
    "\<forall>a \<in> set rej1. \<forall>b \<in> set (nearest_step q k x acc). double_value (distance b q) \<le> double_value (distance a q)"
    by blast
  have "length (nearest_step q k x acc) \<le> k"
    using Cons.prems(2) by (simp add: length_nearest_step)
  from Cons.IH [OF Cons.prems(1) this r1(2,3)]
  obtain rej' where "mset (foldl (\<lambda>a p. nearest_step q k p a) (nearest_step q k x acc) xs) + mset rej' =
            mset (nearest_step q k x acc) + mset rej1 + mset xs"
    "\<forall>a \<in> set rej'. \<forall>b \<in> set (foldl (\<lambda>a p. nearest_step q k p a) (nearest_step q k x acc) xs).
             double_value (distance b q) \<le> double_value (distance a q)"
    by blast
  then show ?case using r1(1) by (intro exI [of _ rej']) (simp add: ac_simps)
qed

text \<open>
  C9, as amended. On every reachable set, for \<open>k = 0\<close> and wherever the walk from \<open>begin()\<close>
  gets past the root, \<open>nearest(q, k)\<close> returns a pair of iterators over exactly
  \<open>min(k, size)\<close> stored points; for \<open>k = 0\<close> the range is empty, for \<open>k \<ge> size\<close> it is the
  in-order traversal, and in every case no stored point that is not returned (\<open>rest\<close>)
  has a strictly smaller distance to \<open>q\<close> than a returned point, the distances being the
  doubles that \<open>Point::distance\<close> returns and \<open><\<close> their comparison.
\<close>

theorem nearest_k_correct:
  assumes "reachable isRight0 nth_element s" and "k = 0 \<or> reaches_end isRight0 (m_root s)"
  shows "\<exists>pr pts rest.
           nearest_k isRight0 s q k = Some (Inr pr) \<and>
           range_points isRight0 s pr = Some (Inr pts) \<and>
           length pts = min k (size_set s) \<and>
           mset pts + mset rest = mset (inorder_walk (m_root s)) \<and>
           (\<forall>a \<in> set rest. \<forall>b \<in> set pts. \<not> double_less (distance a q) (distance b q)) \<and>
           (k = 0 \<longrightarrow> pts = []) \<and>
           (size_set s \<le> k \<longrightarrow> pts = inorder_walk (m_root s))"
proof -
  let ?all = "inorder_walk (m_root s)"
  have size: "m_size s = length ?all"
    using reachable_well_formed [OF assms(1)] by (simp add: well_formed_def)
  have less: "\<not> double_less (distance a q) (distance b q) \<longleftrightarrow>
              double_value (distance b q) \<le> double_value (distance a q)" for a b
    by (simp add: double_less_value ordinary_distance not_less)
  have walk: "reaches_end isRight0 (m_root s)" if "0 < k \<or> m_size s = 0"
  proof (cases "0 < k")
    case True
    then show ?thesis using assms(2) by simp
  next
    case False
    then have "?all = []" using that size by simp
    then have "m_root s = Null" by (cases "m_root s") simp_all
    then show ?thesis by (simp add: reaches_end_def)
  qed
  consider "k \<ge> m_size s" | "k < m_size s" "k = 0" | "k < m_size s" "0 < k" by linarith
  then show ?thesis
  proof cases
    case 1
    then have w: "reaches_end isRight0 (m_root s)" by (intro walk) linarith
    have "nearest_k isRight0 s q k = Some (Inr (TreeRange (PointSet_begin s) PointSet_end))"
      using 1 by (simp add: nearest_k_def)
    moreover have "range_points isRight0 s (TreeRange (PointSet_begin s) PointSet_end) = Some (Inr ?all)"
      using w by (simp add: range_points_def for_each_begin_end foldl_snoc_points)
    ultimately show ?thesis
      using 1 size by (intro exI [of _ "TreeRange (PointSet_begin s) PointSet_end"]
          exI [of _ ?all] exI [of _ "[]"]) (auto simp: size_set_def)
  next
    case 2
    have "nearest_k isRight0 s q k = Some (Inr (TreeRange (PointSet_begin s) (PointSet_begin s)))"
      using 2 by (simp add: nearest_k_def)
    moreover have "range_points isRight0 s (TreeRange (PointSet_begin s) (PointSet_begin s)) = Some (Inr [])"
      by (simp add: range_points_def)
    ultimately show ?thesis
      using 2 by (intro exI [of _ "TreeRange (PointSet_begin s) (PointSet_begin s)"]
          exI [of _ "[]"] exI [of _ ?all]) (auto simp: size_set_def)
  next
    case 3
    then have w: "reaches_end isRight0 (m_root s)" by (intro walk) simp
    let ?nb = "foldl (\<lambda>a p. nearest_step q k p a) [] ?all"
    have "nearest_k isRight0 s q k = Some (Inr (VectorRange ?nb))"
      using 3 w by (simp add: nearest_k_def for_each_begin_end)
    moreover have "range_points isRight0 s (VectorRange ?nb) = Some (Inr ?nb)"
      by (simp add: range_points_def)
    moreover have "length ?nb = min k (size_set s)"
      using length_fold_nearest_step [of "[]" k q ?all] size by (simp add: size_set_def)
    moreover from fold_nearest_step_keeps_closest [OF 3(2), of "[]" "[]" q ?all]
    obtain rest where "mset ?nb + mset rest = mset ?all"
      "\<forall>a \<in> set rest. \<forall>b \<in> set ?nb. double_value (distance b q) \<le> double_value (distance a q)"
      by auto
    ultimately show ?thesis
      using 3 by (intro exI [of _ "VectorRange ?nb"] exI [of _ ?nb] exI [of _ rest])
        (auto simp: size_set_def less)
  qed
qed

theorem nearest_k_correct_witness:
  "\<exists>pr pts rest.
     nearest_k True \<lparr>max_depth = 1,
                 m_root = Node (Node Null Null (Point 1 1) 1) (Node Null Null (Point 4 0) 1) (Point 3 4) 0,
                 m_size = 3\<rparr> (Point 0 0) 2 = Some (Inr pr) \<and>
     range_points True \<lparr>max_depth = 1,
                 m_root = Node (Node Null Null (Point 1 1) 1) (Node Null Null (Point 4 0) 1) (Point 3 4) 0,
                 m_size = 3\<rparr> pr = Some (Inr pts) \<and>
     length pts = 2 \<and>
     mset pts + mset rest = mset [Point 1 1, Point 3 4, Point 4 0] \<and>
     (\<forall>a \<in> set rest. \<forall>b \<in> set pts. \<not> double_less (distance a (Point 0 0)) (distance b (Point 0 0)))"
  using nearest_k_correct [OF example_reachable, of 2 "Point 0 0"]
  by (simp add: reaches_end_def size_set_def)

text \<open>
  The claim as stated fails in two ways. First, in exact arithmetic: the set holds
  \<open>(0, 0)\<close> and \<open>(1, 0)\<close>, put in this order; the root \<open>(0, 0)\<close> has a right child, so the
  walk ends whatever the uninitialised flag reads. The query is \<open>(1, 2^27)\<close> with \<open>k = 1\<close>.
  The squared distance to \<open>(0, 0)\<close> is \<open>2^54 + 1\<close> and rounds to \<open>2^54\<close>, the squared
  distance to \<open>(1, 0)\<close>. The two distances are equal doubles; \<open>(0, 0)\<close> comes first in the
  walk and is returned, and \<open>(1, 0)\<close>, which is strictly closer, does not replace it.
  Second, the call may not return: on the set of \<open>(1, 0)\<close> and \<open>(0, 0)\<close>, put in this order,
  the root has no right child, and where the flag reads false the walk of
  \<open>nearest(q, 1)\<close> never ends.
\<close>

theorem nearest_k_misses_closer_point:
  "puts False nth_element_sort [Point 0 0, Point 1 0] empty_PointSet =
     Some (Inr \<lparr>max_depth = 1, m_root = Node Null (Node Null Null (Point 1 0) 1) (Point 0 0) 0,
                m_size = 2\<rparr>) \<and>
   nearest_k False \<lparr>max_depth = 1, m_root = Node Null (Node Null Null (Point 1 0) 1) (Point 0 0) 0,
                    m_size = 2\<rparr> (Point 1 134217728) 1 = Some (Inr (VectorRange [Point 0 0])) \<and>
   euclidean (Point 1 0) (Point 1 134217728) < euclidean (Point 0 0) (Point 1 134217728) \<and>
   puts False nth_element_sort [Point 1 0, Point 0 0] empty_PointSet =
     Some (Inr \<lparr>max_depth = 1, m_root = Node (Node Null Null (Point 0 0) 1) Null (Point 1 0) 0,
                m_size = 2\<rparr>) \<and>
   nearest_k False \<lparr>max_depth = 1, m_root = Node (Node Null Null (Point 0 0) 1) Null (Point 1 0) 0,
                    m_size = 2\<rparr> (Point 0 0) 1 = None"
proof -
  have a: "round_to_double 18014398509481984 = Finite 18014398509481984"
    by (intro round_to_double_representable round_real_grid [of _ 4503599627370496 54])
       (simp_all add: overflow_def)
  have "round_real 18014398509481985 = 18014398509481984"
    by (subst round_real_eval [of 54]) (simp_all add: round_half_even_def)
  then have b: "round_to_double 18014398509481985 = Finite 18014398509481984"
    by (simp add: round_to_double_def overflow_def)
  have c: "sqrt 18014398509481984 = 134217728"
    by (rule real_sqrt_unique) simp_all
  have d0: "distance (Point 0 0) (Point 1 134217728) = Finite 134217728"
    by (simp add: distance_def round_to_double_numeral round_to_double_neg_numeral a b c)
  have d1: "distance (Point 1 0) (Point 1 134217728) = Finite 134217728"
    by (simp add: distance_def round_to_double_numeral round_to_double_neg_numeral a b c)
  define S where "S = \<lparr>max_depth = 1,
    m_root = Node Null (Node Null Null (Point 1 0) 1) (Point 0 0) 0, m_size = 2\<rparr>"
  have "nearest_k False S (Point 1 134217728) 1 = Some (Inr (VectorRange [Point 0 0]))"
    unfolding nearest_k_def for_each_begin_end
    by (simp add: S_def reaches_end_def nearest_step_def max_element_def
        max_element_loop.simps d0 d1)
  then have 1: "nearest_k False \<lparr>max_depth = 1, m_root = Node Null (Node Null Null (Point 1 0) 1) (Point 0 0) 0,
                    m_size = 2\<rparr> (Point 1 134217728) 1 = Some (Inr (VectorRange [Point 0 0]))"
    by (simp only: S_def)
  have "(134217728::real) < sqrt 18014398509481985"
    by (rule real_less_rsqrt) simp
  then have 2: "euclidean (Point 1 0) (Point 1 134217728) < euclidean (Point 0 0) (Point 1 134217728)"
    by (simp add: euclidean_def c)
  have 3: "puts False nth_element_sort [Point 0 0, Point 1 0] empty_PointSet =
     Some (Inr \<lparr>max_depth = 1, m_root = Node Null (Node Null Null (Point 1 0) 1) (Point 0 0) 0,
                m_size = 2\<rparr>)"
    by (simp add: eval_put)
  have 4: "puts False nth_element_sort [Point 1 0, Point 0 0] empty_PointSet =
     Some (Inr \<lparr>max_depth = 1, m_root = Node (Node Null Null (Point 0 0) 1) Null (Point 1 0) 0,
                m_size = 2\<rparr>)"
    by (simp add: eval_put)
  define S' where "S' = \<lparr>max_depth = 1,
    m_root = Node (Node Null Null (Point 0 0) 1) Null (Point 1 0) 0, m_size = 2\<rparr>"
  have "nearest_k False S' (Point 0 0) 1 = None"
    unfolding nearest_k_def for_each_begin_end
    by (simp add: S'_def reaches_end_def)
  then have 5: "nearest_k False \<lparr>max_depth = 1, m_root = Node (Node Null Null (Point 0 0) 1) Null (Point 1 0) 0,
                    m_size = 2\<rparr> (Point 0 0) 1 = None"
    by (simp only: S'_def)
  from 1 2 3 4 5 show ?thesis by simp
qed

section \<open>Further properties of the code\<close>

lemma findPointsInRectangle_acc:
  "findPointsInRectangle t acc rect = acc @ findPointsInRectangle t [] rect"
proof (induction t arbitrary: acc)
  case Null
  then show ?case by simp
next
  case (Node l r mp nd)
  show ?case
    using Node.IH(1) [of "acc @ [mp]"] Node.IH(1) [of acc] Node.IH(1) [of "[mp]"]
      Node.IH(2) [of "acc @ [mp] @ findPointsInRectangle l [] rect"]
      Node.IH(2) [of "acc @ findPointsInRectangle l [] rect"]
      Node.IH(2) [of "[mp] @ findPointsInRectangle l [] rect"]
      Node.IH(2) [of "findPointsInRectangle l [] rect"]
      Node.IH(2) [of "acc @ [mp]"] Node.IH(2) [of acc] Node.IH(2) [of "[mp]"]
    by (simp add: Let_def)
qed

lemma findPointsInRectangle_Node:
  "findPointsInRectangle (Node l r mp nd) [] rect =
     (if Rect_contains rect mp then [mp] else []) @
     (if split_coord nd mp \<ge> (if nd mod 2 = 0 then xmin rect else ymin rect)
      then findPointsInRectangle l [] rect else []) @
     (if split_coord nd mp \<le> (if nd mod 2 = 0 then xmax rect else ymax rect)
      then findPointsInRectangle r [] rect else [])"
  using findPointsInRectangle_acc [of l "[mp]" rect]
    findPointsInRectangle_acc [of r "[mp] @ findPointsInRectangle l [] rect" rect]
    findPointsInRectangle_acc [of r "findPointsInRectangle l [] rect" rect]
    findPointsInRectangle_acc [of r "[mp]" rect]
  by (simp add: Let_def split_coord_def)

lemma range_sound:
  "p \<in> set (findPointsInRectangle t [] rect) \<Longrightarrow>
   p \<in> set (inorder_walk t) \<and> Rect_contains rect p"
  by (induction t)
     (auto simp: findPointsInRectangle_Node simp del: findPointsInRectangle.simps(2)
           split: if_splits)

lemma inside_contains:
  "xmin rect \<le> x_coord p \<Longrightarrow> x_coord p \<le> xmax rect \<Longrightarrow> ymin rect \<le> y_coord p \<Longrightarrow>
   y_coord p \<le> ymax rect \<Longrightarrow> Rect_contains rect p"
  using eps_pos by (simp add: Rect_contains_def Rect_distance_def)

lemma range_complete_inside:
  "depths_from d t \<Longrightarrow> partitioned d t \<Longrightarrow> p \<in> set (inorder_walk t) \<Longrightarrow>
   xmin rect \<le> x_coord p \<Longrightarrow> x_coord p \<le> xmax rect \<Longrightarrow> ymin rect \<le> y_coord p \<Longrightarrow>
   y_coord p \<le> ymax rect \<Longrightarrow> p \<in> set (findPointsInRectangle t [] rect)"
proof (induction t arbitrary: d)
  case Null
  then show ?case by simp
next
  case (Node l r mp nd)
  have nd: "nd = d" using Node.prems(1) by simp
  have bounds: "(if nd mod 2 = 0 then xmin rect else ymin rect) \<le> split_coord nd p"
    "split_coord nd p \<le> (if nd mod 2 = 0 then xmax rect else ymax rect)"
    using Node.prems(4-7) by (auto simp: split_coord_def)
  consider "p = mp" | "p \<in> set (inorder_walk l)" | "p \<in> set (inorder_walk r)"
    using Node.prems(3) by auto
  then show ?case
  proof cases
    case 1
    then have "Rect_contains rect mp" using Node.prems(4-7) by (simp add: inside_contains)
    then show ?thesis
      using 1 by (simp add: findPointsInRectangle_Node del: findPointsInRectangle.simps(2))
  next
    case 2
    then have le: "split_coord nd p \<le> split_coord nd mp" using Node.prems(2) nd by auto
    have "p \<in> set (findPointsInRectangle l [] rect)"
      using Node.IH(1) [OF _ _ 2 Node.prems(4-7), of "d + 1"] Node.prems(1,2) by simp
    then show ?thesis
      using le bounds(1)
      by (simp add: findPointsInRectangle_Node del: findPointsInRectangle.simps(2))
  next
    case 3
    then have gt: "split_coord nd mp < split_coord nd p" using Node.prems(2) nd by auto
    have "p \<in> set (findPointsInRectangle r [] rect)"
      using Node.IH(2) [OF _ _ 3 Node.prems(4-7), of "d + 1"] Node.prems(1,2) by simp
    then show ?thesis
      using gt bounds(2)
      by (simp add: findPointsInRectangle_Node del: findPointsInRectangle.simps(2))
  qed
qed


text \<open>
  X1. Reading the pair \<open>(begin(), end())\<close> with \<open>++\<close> yields exactly the recursive in-order
  sequence when the tree is empty, its root has a right child, or the uninitialised flag
  of \<open>next\<close> reads true; in the remaining case the walk never ends.
\<close>

theorem walk_from_begin_to_end:
  "range_points isRight0 s (TreeRange (PointSet_begin s) PointSet_end) =
     (if reaches_end isRight0 (m_root s) then Some (Inr (inorder_walk (m_root s))) else None)"
  by (simp add: range_points_def for_each_begin_end foldl_snoc_points)

text \<open>
  X2. On a reachable set, \<open>range(rect)\<close> returns only stored points that
  \<open>Rect::contains\<close> accepts, and it returns every stored point of the closed rectangle.
\<close>

theorem range_query_inside:
  assumes "reachable isRight0 nth_element s"
  shows "(\<forall>p \<in> set (range_query s rect).
            p \<in> set (inorder_walk (m_root s)) \<and> Rect_contains rect p) \<and>
         (\<forall>p \<in> set (inorder_walk (m_root s)).
            xmin rect \<le> x_coord p \<and> x_coord p \<le> xmax rect \<and>
            ymin rect \<le> y_coord p \<and> y_coord p \<le> ymax rect \<longrightarrow>
            p \<in> set (range_query s rect))"
proof -
  have wf: "depths_from 0 (m_root s)" "partitioned 0 (m_root s)"
    using reachable_well_formed [OF assms] by (simp_all add: well_formed_def)
  show ?thesis
    unfolding range_query_def
    using range_sound [of _ "m_root s" rect] range_complete_inside [OF wf, of _ rect]
    by blast
qed

theorem range_query_inside_witness:
  "range_query \<lparr>max_depth = 1,
      m_root = Node (Node Null Null (Point 1 1) 1) (Node Null Null (Point 4 0) 1) (Point 3 4) 0,
      m_size = 3\<rparr> (Rect (Point 0 0) (Point 3 5)) = [Point 3 4, Point 1 1]"
  using range_query_inside [OF example_reachable, of "Rect (Point 0 0) (Point 3 5)"]
  by (simp add: range_query_def Rect_contains_def Rect_distance_def xmin_def xmax_def ymin_def
        ymax_def eps_def)

text \<open>
  X3. Right after the insertion of \<open>put(p)\<close>, before any rebuild, \<open>contains(p)\<close> holds,
  also for a point that is epsilon-equal to a stored one; and the insertion leaves every
  contained point contained.
\<close>

theorem contains_after_insert:
  "contains (insert_at_root p s) p \<and> (contains s q \<longrightarrow> contains (insert_at_root p s) q)"
  by (simp add: contains_def m_root_insert_at_root find_node_insert_same find_node_insert_other)

theorem contains_after_insert_witness:
  "contains (insert_at_root (Point (eps / 2) 0)
       \<lparr>max_depth = 0, m_root = Node Null Null (Point 0 0) 0, m_size = 1\<rparr>) (Point (eps / 2) 0) \<and>
   contains \<lparr>max_depth = 0, m_root = Node Null Null (Point 0 0) 0, m_size = 1\<rparr> (Point 0 0) \<and>
   contains (insert_at_root (Point (eps / 2) 0)
       \<lparr>max_depth = 0, m_root = Node Null Null (Point 0 0) 0, m_size = 1\<rparr>) (Point 0 0)"
  using contains_after_insert [of "Point (eps / 2) 0"
      "\<lparr>max_depth = 0, m_root = Node Null Null (Point 0 0) 0, m_size = 1\<rparr>" "Point 0 0"]
  by (simp add: contains_def)

text \<open>
  X4. In every reachable set \<open>size()\<close> is the number of nodes of the tree, and every node
  stores its depth below the root.
\<close>

theorem reachable_size_and_depths:
  "reachable isRight0 nth_element s \<Longrightarrow>
   size_set s = length (inorder_walk (m_root s)) \<and> depths_from 0 (m_root s)"
  using reachable_well_formed [of isRight0 nth_element s]
  by (simp add: well_formed_def size_set_def)

theorem reachable_size_and_depths_witness:
  "size_set \<lparr>max_depth = 1,
      m_root = Node (Node Null Null (Point 1 1) 1) (Node Null Null (Point 4 0) 1) (Point 3 4) 0,
      m_size = 3\<rparr> = 3"
  using reachable_size_and_depths [OF example_reachable] by simp

text \<open>X5. The copy constructor yields a set with the same tree, size and maximum depth.\<close>

theorem copy_is_identical: "PointSet_copy s = s"
  by simp

text \<open>X6. Built from no points, the set is empty and its size is 0.\<close>

theorem build_from_nothing:
  "PointSet_of nth_element [] = empty_PointSet \<and> empty_set (PointSet_of nth_element []) \<and>
   size_set (PointSet_of nth_element []) = 0"
  by (simp add: empty_set_def size_set_def empty_PointSet_def)

text \<open>
  X7. Built from points among which epsilon-equality is equality, the set stores exactly
  these points, and its size is their number.
\<close>

theorem build_stores_points:
  assumes "rearranges nth_element" and "separated (set points)"
  shows "set (inorder_walk (m_root (PointSet_of nth_element points))) = set points \<and>
         size_set (PointSet_of nth_element points) = card (set points)"
  using PointSet_of_separated [OF assms subset_refl]
    distinct_card [of "inorder_walk (m_root (PointSet_of nth_element points))"]
  by (simp add: size_set_def well_formed_def)

theorem build_stores_points_witness:
  "set (inorder_walk (m_root (PointSet_of nth_element_sort [Point 2 2, Point 1 1, Point 3 0]))) =
     set [Point 2 2, Point 1 1, Point 3 0] \<and>
   size_set (PointSet_of nth_element_sort [Point 2 2, Point 1 1, Point 3 0]) = 3"
  using build_stores_points [OF rearranges_nth_element_sort, of "[Point 2 2, Point 1 1, Point 3 0]"]
  by (simp add: separated_def Point_eq_def eps_def)

text \<open>
  X8. On a reachable set \<open>contains\<close> accepts every stored point, and every point it
  accepts is epsilon-equal to a stored point.
\<close>

theorem contains_stored_or_near:
  assumes "reachable isRight0 nth_element s"
  shows "(\<forall>p \<in> set (inorder_walk (m_root s)). contains s p) \<and>
         (contains s q \<longrightarrow> (\<exists>m \<in> set (inorder_walk (m_root s)). Point_eq m q))"
proof -
  have "\<exists>m \<in> set (inorder_walk (m_root s)). Point_eq m q" if "contains s q"
  proof -
    from that obtain l r mp nd where "find_node q (m_root s) = Node l r mp nd"
      by (cases "find_node q (m_root s)") (auto simp: contains_def)
    from find_node_result [OF this] show ?thesis by blast
  qed
  then show ?thesis
    using contains_stored [OF reachable_well_formed [OF assms]] by blast
qed

theorem contains_stored_or_near_witness:
  "contains \<lparr>max_depth = 1,
      m_root = Node (Node Null Null (Point 1 1) 1) (Node Null Null (Point 4 0) 1) (Point 3 4) 0,
      m_size = 3\<rparr> (Point 4 0) \<and>
   \<not> contains \<lparr>max_depth = 1,
      m_root = Node (Node Null Null (Point 1 1) 1) (Node Null Null (Point 4 0) 1) (Point 3 4) 0,
      m_size = 3\<rparr> (Point 4 1)"
  using contains_stored_or_near [OF example_reachable, of "Point 4 1"]
  by (simp add: Point_eq_def eps_def)

text \<open>
  X9. Where the uninitialised flag of \<open>next\<close> reads true, every \<open>put\<close> returns a set: it
  neither fails nor runs forever.
\<close>

theorem put_returns: "\<exists>s'. put True nth_element p s = Some (Inr s')"
  by (simp add: put_def reBuild_eq reaches_end_def split: Node.split)

text \<open>
  X12. \<open>put\<close> as a whole: it returns exactly when the depth test fails after the insertion
  or the walk from \<open>begin()\<close> gets past the root, and it returns the inserted set in the
  first case and the rebuilt set in the second.
\<close>

theorem put_is_insert_then_rebuild:
  "put isRight0 nth_element p s =
     (let s1 = insert_at_root p s in
      if depth_exceeded (max_depth s1) (m_size s1) then
        (if reaches_end isRight0 (m_root s1)
         then Some (Inr (PointSet_of nth_element (inorder_walk (m_root s1))))
         else None)
      else Some (Inr s1))"
  by (simp add: put_def reBuild_eq)

text \<open>
  X13. In every reachable set \<open>max_depth\<close> is the greatest depth of a node of the tree: an
  insertion raises it to the depth it reaches, and a rebuild starts it again from 0.
\<close>

theorem reachable_max_depth:
  "reachable isRight0 nth_element s \<Longrightarrow> max_depth s = deepest (m_root s)"
proof (induction rule: reachable.induct)
  case (built points)
  show ?case by (rule max_depth_PointSet_of)
next
  case (after_put s p s')
  have "depths_from 0 (m_root s)"
    using reachable_well_formed [OF after_put.hyps(1)] by (simp add: well_formed_def)
  from deepest_insert_at_root [OF this after_put.IH, of p] after_put.hyps(2)
  show ?case by (auto simp: put_def reBuild_eq max_depth_PointSet_of split: if_splits)
next
  case (copied s)
  then show ?case by simp
qed

theorem reachable_max_depth_witness:
  "max_depth \<lparr>max_depth = 1,
      m_root = Node (Node Null Null (Point 1 1) 1) (Node Null Null (Point 4 0) 1) (Point 3 4) 0,
      m_size = 3\<rparr> = 1"
  using reachable_max_depth [OF example_reachable] by simp

text \<open>
  X14. \<open>Point::distance\<close> is symmetric, and on points with finite coordinates its result is
  never NaN and never negative.
\<close>

theorem distance_symmetric_and_ordered:
  "distance p q = distance q p \<and> ordinary (distance p q) \<and> 0 \<le> double_value (distance p q)"
  using distance_commute [of p q] ordinary_distance [of p q] distance_nonneg [of p q] by simp

section \<open>The nodes in a store hold the tree\<close>

lemma addrs_bound: "linked h ptr t \<Longrightarrow> a \<in> set (addrs h ptr t) \<Longrightarrow> a < length h"
  by (induction t arbitrary: ptr) (auto split: option.splits)

lemma linked_frame:
  "linked h ptr t \<Longrightarrow> length h \<le> length h' \<Longrightarrow>
   (\<forall>a \<in> set (addrs h ptr t).
      cell_left (h' ! a) = cell_left (h ! a) \<and> cell_right (h' ! a) = cell_right (h ! a) \<and>
      cell_point (h' ! a) = cell_point (h ! a) \<and> cell_depth (h' ! a) = cell_depth (h ! a) \<and>
      (Some a \<noteq> ptr \<longrightarrow> cell_parent (h' ! a) = cell_parent (h ! a))) \<Longrightarrow>
   distinct (addrs h ptr t) \<Longrightarrow>
   linked h' ptr t \<and> addrs h' ptr t = addrs h ptr t"
proof (induction t arbitrary: ptr)
  case Null
  then show ?case by simp
next
  case (Node l r mp nd)
  then obtain a where a: "ptr = Some a" by (cases ptr) auto
  let ?lp = "cell_left (h ! a)" and ?rp = "cell_right (h ! a)"
  have top: "a \<in> set (addrs h ptr (Node l r mp nd))" by (simp add: a)
  have sub: "set (addrs h ?lp l) \<subseteq> set (addrs h ptr (Node l r mp nd))"
    "set (addrs h ?rp r) \<subseteq> set (addrs h ptr (Node l r mp nd))" by (auto simp: a)
  have notin: "a \<notin> set (addrs h ?lp l)" "a \<notin> set (addrs h ?rp r)"
    using Node.prems(4) by (auto simp: a)
  have hl: "linked h ?lp l" and hr: "linked h ?rp r" using Node.prems(1) by (auto simp: a)
  have dl: "distinct (addrs h ?lp l)" and dr: "distinct (addrs h ?rp r)"
    using Node.prems(4) by (auto simp: a)
  have topsub: "?lp = Some b \<Longrightarrow> b \<in> set (addrs h ?lp l)" for b
    using hl by (cases l) auto
  have topsubr: "?rp = Some b \<Longrightarrow> b \<in> set (addrs h ?rp r)" for b
    using hr by (cases r) auto
  have fl: "\<forall>x \<in> set (addrs h ?lp l).
      cell_left (h' ! x) = cell_left (h ! x) \<and> cell_right (h' ! x) = cell_right (h ! x) \<and>
      cell_point (h' ! x) = cell_point (h ! x) \<and> cell_depth (h' ! x) = cell_depth (h ! x) \<and>
      (Some x \<noteq> ?lp \<longrightarrow> cell_parent (h' ! x) = cell_parent (h ! x))"
    using Node.prems(3) sub(1) notin(1) by (auto simp: a)
  have fr: "\<forall>x \<in> set (addrs h ?rp r).
      cell_left (h' ! x) = cell_left (h ! x) \<and> cell_right (h' ! x) = cell_right (h ! x) \<and>
      cell_point (h' ! x) = cell_point (h ! x) \<and> cell_depth (h' ! x) = cell_depth (h ! x) \<and>
      (Some x \<noteq> ?rp \<longrightarrow> cell_parent (h' ! x) = cell_parent (h ! x))"
    using Node.prems(3) sub(2) notin(2) by (auto simp: a)
  note il = Node.IH(1) [OF hl Node.prems(2) fl dl]
  note ir = Node.IH(2) [OF hr Node.prems(2) fr dr]
  have same: "cell_left (h' ! a) = ?lp" "cell_right (h' ! a) = ?rp"
    "cell_point (h' ! a) = cell_point (h ! a)" "cell_depth (h' ! a) = cell_depth (h ! a)"
    using Node.prems(3) top by auto
  have pl: "cell_parent (h' ! b) = cell_parent (h ! b)" if "?lp = Some b" for b
    using Node.prems(3) topsub [OF that] sub(1) notin(1) by (auto simp: a)
  have pr: "cell_parent (h' ! b) = cell_parent (h ! b)" if "?rp = Some b" for b
    using Node.prems(3) topsubr [OF that] sub(2) notin(2) by (auto simp: a)
  show ?case
    using Node.prems(1,2) il ir same pl pr by (auto simp: a split: option.splits)
qed


lemma link_left_facts:
  assumes "a \<noteq> b" "a < length h" "b < length h"
  shows "length (link_left a b h) = length h"
    and "link_left a b h ! a = (h ! a)\<lparr>cell_left := Some b\<rparr>"
    and "link_left a b h ! b = (h ! b)\<lparr>cell_parent := Some a\<rparr>"
    and "\<And>x. x \<noteq> a \<Longrightarrow> x \<noteq> b \<Longrightarrow> link_left a b h ! x = h ! x"
  using assms by (simp_all add: link_left_def Let_def)

lemma link_right_facts:
  assumes "a \<noteq> b" "a < length h" "b < length h"
  shows "length (link_right a b h) = length h"
    and "link_right a b h ! a = (h ! a)\<lparr>cell_right := Some b\<rparr>"
    and "link_right a b h ! b = (h ! b)\<lparr>cell_parent := Some a\<rparr>"
    and "\<And>x. x \<noteq> a \<Longrightarrow> x \<noteq> b \<Longrightarrow> link_right a b h ! x = h ! x"
  using assms by (simp_all add: link_right_def Let_def)

lemma linked_top: "linked h (Some b) t \<Longrightarrow> b < length h \<and> b \<in> set (addrs h (Some b) t)"
  by (cases t) auto

lemma linked_None: "linked h None t \<Longrightarrow> t = Null"
  by (cases t) auto

lemma insert_store_refines:
  "linked (cells ps) ptr t \<Longrightarrow> distinct (addrs (cells ps) ptr t) \<Longrightarrow> counters_agree ps s \<Longrightarrow>
   \<exists>b ps'. insert_store point ptr d ps = Some (b, ps') \<and>
     insert_store_post ps ptr t b ps' (fst (insert_node point t d s)) \<and>
     counters_agree ps' (snd (insert_node point t d s))"
proof (induction t arbitrary: ptr d ps s)
  case Null
  then have ptr: "ptr = None" by simp
  show ?case
    using Null.prems(3)
    by (subst insert_store.simps)
       (simp add: ptr insert_store_post_def counters_agree_def new_cell_def nth_append)
next
  case (Node l r mp nd)
  then obtain a where a: "ptr = Some a" by (cases ptr) auto
  let ?h = "cells ps"
  let ?lp = "cell_left (?h ! a)" and ?rp = "cell_right (?h ! a)"
  define ps1 where "ps1 = ps\<lparr>st_max_depth := max (st_max_depth ps) d\<rparr>"
  define s1 where "s1 = s\<lparr>max_depth := max (max_depth s) d\<rparr>"
  have h1: "cells ps1 = ?h" by (simp add: ps1_def)
  have ag1: "counters_agree ps1 s1"
    using Node.prems(3) by (simp add: counters_agree_def ps1_def s1_def)
  have al: "a < length ?h" and mp: "cell_point (?h ! a) = mp" and nd: "cell_depth (?h ! a) = nd"
    and hl: "linked ?h ?lp l" and hr: "linked ?h ?rp r"
    and parl: "\<And>b. ?lp = Some b \<Longrightarrow> cell_parent (?h ! b) = Some a"
    and parr: "\<And>b. ?rp = Some b \<Longrightarrow> cell_parent (?h ! b) = Some a"
    using Node.prems(1) by (auto simp: a)
  have dl: "distinct (addrs ?h ?lp l)" and dr: "distinct (addrs ?h ?rp r)"
    and nal: "a \<notin> set (addrs ?h ?lp l)" and nar: "a \<notin> set (addrs ?h ?rp r)"
    and disj: "set (addrs ?h ?lp l) \<inter> set (addrs ?h ?rp r) = {}"
    using Node.prems(2) by (auto simp: a)
  have all: "set (addrs ?h ptr (Node l r mp nd)) = set (addrs ?h ?lp l) \<union> {a} \<union> set (addrs ?h ?rp r)"
    by (auto simp: a)
  show ?case
  proof (cases "Point_eq mp point")
    case True
    have "insert_store point ptr d ps = Some (a, ps1)"
      using True by (subst insert_store.simps) (simp add: a mp ps1_def Let_def)
    moreover have "insert_node point (Node l r mp nd) d s = (Node l r mp nd, s1)"
      using True by (simp add: s1_def Let_def)
    moreover have "insert_store_post ps ptr (Node l r mp nd) a ps1 (Node l r mp nd)"
      using Node.prems(1,2) by (auto simp: insert_store_post_def a h1 ps1_def)
    ultimately show ?thesis
      using ag1 by (simp del: insert_node.simps)
  next
    case neq: False
    show ?thesis
    proof (cases "toLeft nd point mp")
      case True
      from Node.IH(1) [of ps1 ?lp s1 "d + 1"] hl dl ag1
      obtain b ps2 where ins: "insert_store point ?lp (d + 1) ps1 = Some (b, ps2)"
        and post: "insert_store_post ps1 ?lp l b ps2 (fst (insert_node point l (d + 1) s1))"
        and ag2: "counters_agree ps2 (snd (insert_node point l (d + 1) s1))"
        by (auto simp: h1)
      let ?l' = "fst (insert_node point l (d + 1) s1)"
      let ?h2 = "cells ps2"
      let ?h3 = "link_left a b ?h2"
      have l2: "linked ?h2 (Some b) ?l'" and d2: "distinct (addrs ?h2 (Some b) ?l')"
        and sub2: "set (addrs ?h2 (Some b) ?l') \<subseteq> set (addrs ?h ?lp l) \<union> {length ?h}"
        and len2: "length ?h \<le> length ?h2"
        and frame2: "\<And>x. x < length ?h \<Longrightarrow> x \<notin> set (addrs ?h ?lp l) \<Longrightarrow> ?h2 ! x = ?h ! x"
        and root2: "st_root ps2 = st_root ps"
        using post by (auto simp: insert_store_post_def h1 ps1_def)
      have bl: "b < length ?h2" and bin: "b \<in> set (addrs ?h2 (Some b) ?l')"
        using linked_top [OF l2] by auto
      have ab: "a \<noteq> b" using bin sub2 nal al by auto
      have al2: "a < length ?h2" using al len2 by simp
      note lf = link_left_facts [OF ab al2 bl]
      have ha: "?h2 ! a = ?h ! a" using frame2 [OF al nal] .
      have rsame: "?h3 ! x = ?h ! x" if "x \<in> set (addrs ?h ?rp r)" for x
      proof -
        have xl: "x < length ?h" using addrs_bound [OF hr that] .
        have xnl: "x \<notin> set (addrs ?h ?lp l)" using that disj by auto
        have "x \<noteq> a" using that nar by auto
        moreover have "x \<noteq> b" using bin sub2 xl xnl by auto
        ultimately show ?thesis using lf(4) frame2 [OF xl xnl] by simp
      qed
      have lr: "linked ?h3 ?rp r \<and> addrs ?h3 ?rp r = addrs ?h ?rp r"
        by (rule linked_frame [OF hr _ _ dr]) (use lf(1) len2 rsame in auto)
      have ll: "linked ?h3 (Some b) ?l' \<and> addrs ?h3 (Some b) ?l' = addrs ?h2 (Some b) ?l'"
      proof (rule linked_frame [OF l2 _ _ d2])
        show "length ?h2 \<le> length ?h3" using lf(1) by simp
        show "\<forall>x \<in> set (addrs ?h2 (Some b) ?l').
            cell_left (?h3 ! x) = cell_left (?h2 ! x) \<and> cell_right (?h3 ! x) = cell_right (?h2 ! x) \<and>
            cell_point (?h3 ! x) = cell_point (?h2 ! x) \<and> cell_depth (?h3 ! x) = cell_depth (?h2 ! x) \<and>
            (Some x \<noteq> Some b \<longrightarrow> cell_parent (?h3 ! x) = cell_parent (?h2 ! x))"
        proof
          fix x assume x: "x \<in> set (addrs ?h2 (Some b) ?l')"
          then have "x \<noteq> a" using sub2 nal al by auto
          then show "cell_left (?h3 ! x) = cell_left (?h2 ! x) \<and> cell_right (?h3 ! x) = cell_right (?h2 ! x) \<and>
            cell_point (?h3 ! x) = cell_point (?h2 ! x) \<and> cell_depth (?h3 ! x) = cell_depth (?h2 ! x) \<and>
            (Some x \<noteq> Some b \<longrightarrow> cell_parent (?h3 ! x) = cell_parent (?h2 ! x))"
            using lf(3,4) by (cases "x = b") auto
        qed
      qed
      have res_store: "insert_store point ptr d ps = Some (a, ps2\<lparr>cells := ?h3\<rparr>)"
        using neq True ins
        by (subst insert_store.simps) (simp add: a mp nd ps1_def [symmetric] h1 Let_def)
      have res_tree: "insert_node point (Node l r mp nd) d s =
          (Node ?l' r mp nd, snd (insert_node point l (d + 1) s1))"
        using neq True by (simp add: s1_def Let_def split: prod.splits)
      have linked3: "linked ?h3 (Some a) (Node ?l' r mp nd)"
      proof -
        have "cell_parent (?h3 ! c) = Some a" if "?rp = Some c" for c
        proof -
          have "c \<in> set (addrs ?h ?rp r)" using hr that linked_top by auto
          from rsame [OF this] parr [OF that] show ?thesis by simp
        qed
        then show ?thesis
          using al2 lf ha mp nd ll lr by (auto split: option.splits)
      qed
      have addrs3: "addrs ?h3 (Some a) (Node ?l' r mp nd) =
          addrs ?h2 (Some b) ?l' @ [a] @ addrs ?h ?rp r"
        using lf ha ll lr by simp
      have dist3: "distinct (addrs ?h3 (Some a) (Node ?l' r mp nd))"
      proof -
        have "a \<notin> set (addrs ?h2 (Some b) ?l')" using sub2 nal al by auto
        moreover have "set (addrs ?h2 (Some b) ?l') \<inter> set (addrs ?h ?rp r) = {}"
        proof -
          have "x \<notin> set (addrs ?h ?rp r)" if "x \<in> set (addrs ?h2 (Some b) ?l')" for x
            using that sub2 disj addrs_bound [OF hr, of x] by auto
          then show ?thesis by auto
        qed
        ultimately show ?thesis unfolding addrs3 using d2 dr nar by auto
      qed
      have frame3: "?h3 ! x = ?h ! x"
        if "x < length ?h" "x \<notin> set (addrs ?h ptr (Node l r mp nd))" for x
      proof -
        have "x \<noteq> a" "x \<notin> set (addrs ?h ?lp l)" using that(2) all by auto
        moreover from this have "x \<noteq> b" using bin sub2 that(1) by auto
        ultimately show ?thesis using lf(4) frame2 [OF that(1)] by simp
      qed
      have "insert_store_post ps ptr (Node l r mp nd) a (ps2\<lparr>cells := ?h3\<rparr>) (Node ?l' r mp nd)"
        unfolding insert_store_post_def
      proof (intro conjI)
        show "linked (cells (ps2\<lparr>cells := ?h3\<rparr>)) (Some a) (Node ?l' r mp nd)"
          using linked3 by (simp del: linked.simps)
        show "distinct (addrs (cells (ps2\<lparr>cells := ?h3\<rparr>)) (Some a) (Node ?l' r mp nd))"
          using dist3 by (simp del: addrs.simps)
        have "set (addrs ?h3 (Some a) (Node ?l' r mp nd)) \<subseteq>
              set (addrs ?h ptr (Node l r mp nd)) \<union> {length ?h}"
          unfolding addrs3 all using sub2 by auto
        then show "set (addrs (cells (ps2\<lparr>cells := ?h3\<rparr>)) (Some a) (Node ?l' r mp nd)) \<subseteq>
              set (addrs ?h ptr (Node l r mp nd)) \<union> {length ?h}"
          by (simp del: addrs.simps)
        show "length ?h \<le> length (cells (ps2\<lparr>cells := ?h3\<rparr>))"
          using len2 lf(1) by simp
        show "\<forall>x < length ?h. x \<notin> set (addrs ?h ptr (Node l r mp nd)) \<longrightarrow>
                cells (ps2\<lparr>cells := ?h3\<rparr>) ! x = ?h ! x"
          using frame3 by (simp del: addrs.simps)
        show "case ptr of
                Some a' \<Rightarrow> a = a' \<and> cell_parent (cells (ps2\<lparr>cells := ?h3\<rparr>) ! a') = cell_parent (?h ! a')
              | None \<Rightarrow> a = length ?h \<and> cell_parent (cells (ps2\<lparr>cells := ?h3\<rparr>) ! a) = None"
          using lf(2) ha by (simp add: a)
        show "st_root (ps2\<lparr>cells := ?h3\<rparr>) = st_root ps"
          using root2 by simp
      qed
      moreover have "counters_agree (ps2\<lparr>cells := ?h3\<rparr>) (snd (insert_node point l (d + 1) s1))"
        using ag2 by (simp add: counters_agree_def)
      ultimately show ?thesis using res_store res_tree by (simp del: insert_node.simps)
    next
      case False
      from Node.IH(2) [of ps1 ?rp s1 "d + 1"] hr dr ag1
      obtain b ps2 where ins: "insert_store point ?rp (d + 1) ps1 = Some (b, ps2)"
        and post: "insert_store_post ps1 ?rp r b ps2 (fst (insert_node point r (d + 1) s1))"
        and ag2: "counters_agree ps2 (snd (insert_node point r (d + 1) s1))"
        by (auto simp: h1)
      let ?r' = "fst (insert_node point r (d + 1) s1)"
      let ?h2 = "cells ps2"
      let ?h3 = "link_right a b ?h2"
      have l2: "linked ?h2 (Some b) ?r'" and d2: "distinct (addrs ?h2 (Some b) ?r')"
        and sub2: "set (addrs ?h2 (Some b) ?r') \<subseteq> set (addrs ?h ?rp r) \<union> {length ?h}"
        and len2: "length ?h \<le> length ?h2"
        and frame2: "\<And>x. x < length ?h \<Longrightarrow> x \<notin> set (addrs ?h ?rp r) \<Longrightarrow> ?h2 ! x = ?h ! x"
        and root2: "st_root ps2 = st_root ps"
        using post by (auto simp: insert_store_post_def h1 ps1_def)
      have bl: "b < length ?h2" and bin: "b \<in> set (addrs ?h2 (Some b) ?r')"
        using linked_top [OF l2] by auto
      have ab: "a \<noteq> b" using bin sub2 nar al by auto
      have al2: "a < length ?h2" using al len2 by simp
      note lf = link_right_facts [OF ab al2 bl]
      have ha: "?h2 ! a = ?h ! a" using frame2 [OF al nar] .
      have lsame: "?h3 ! x = ?h ! x" if "x \<in> set (addrs ?h ?lp l)" for x
      proof -
        have xl: "x < length ?h" using addrs_bound [OF hl that] .
        have xnr: "x \<notin> set (addrs ?h ?rp r)" using that disj by auto
        have "x \<noteq> a" using that nal by auto
        moreover have "x \<noteq> b" using bin sub2 xl xnr by auto
        ultimately show ?thesis using lf(4) frame2 [OF xl xnr] by simp
      qed
      have ll: "linked ?h3 ?lp l \<and> addrs ?h3 ?lp l = addrs ?h ?lp l"
        by (rule linked_frame [OF hl _ _ dl]) (use lf(1) len2 lsame in auto)
      have lr: "linked ?h3 (Some b) ?r' \<and> addrs ?h3 (Some b) ?r' = addrs ?h2 (Some b) ?r'"
      proof (rule linked_frame [OF l2 _ _ d2])
        show "length ?h2 \<le> length ?h3" using lf(1) by simp
        show "\<forall>x \<in> set (addrs ?h2 (Some b) ?r').
            cell_left (?h3 ! x) = cell_left (?h2 ! x) \<and> cell_right (?h3 ! x) = cell_right (?h2 ! x) \<and>
            cell_point (?h3 ! x) = cell_point (?h2 ! x) \<and> cell_depth (?h3 ! x) = cell_depth (?h2 ! x) \<and>
            (Some x \<noteq> Some b \<longrightarrow> cell_parent (?h3 ! x) = cell_parent (?h2 ! x))"
        proof
          fix x assume x: "x \<in> set (addrs ?h2 (Some b) ?r')"
          then have "x \<noteq> a" using sub2 nar al by auto
          then show "cell_left (?h3 ! x) = cell_left (?h2 ! x) \<and> cell_right (?h3 ! x) = cell_right (?h2 ! x) \<and>
            cell_point (?h3 ! x) = cell_point (?h2 ! x) \<and> cell_depth (?h3 ! x) = cell_depth (?h2 ! x) \<and>
            (Some x \<noteq> Some b \<longrightarrow> cell_parent (?h3 ! x) = cell_parent (?h2 ! x))"
            using lf(3,4) by (cases "x = b") auto
        qed
      qed
      have res_store: "insert_store point ptr d ps = Some (a, ps2\<lparr>cells := ?h3\<rparr>)"
        using neq False ins
        by (subst insert_store.simps) (simp add: a mp nd ps1_def [symmetric] h1 Let_def)
      have res_tree: "insert_node point (Node l r mp nd) d s =
          (Node l ?r' mp nd, snd (insert_node point r (d + 1) s1))"
        using neq False by (simp add: s1_def Let_def split: prod.splits)
      have linked3: "linked ?h3 (Some a) (Node l ?r' mp nd)"
      proof -
        have "cell_parent (?h3 ! c) = Some a" if "?lp = Some c" for c
        proof -
          have "c \<in> set (addrs ?h ?lp l)" using hl that linked_top by auto
          from lsame [OF this] parl [OF that] show ?thesis by simp
        qed
        then show ?thesis
          using al2 lf ha mp nd ll lr by (auto split: option.splits)
      qed
      have addrs3: "addrs ?h3 (Some a) (Node l ?r' mp nd) =
          addrs ?h ?lp l @ [a] @ addrs ?h2 (Some b) ?r'"
        using lf ha ll lr by simp
      have dist3: "distinct (addrs ?h3 (Some a) (Node l ?r' mp nd))"
      proof -
        have "a \<notin> set (addrs ?h2 (Some b) ?r')" using sub2 nar al by auto
        moreover have "set (addrs ?h ?lp l) \<inter> set (addrs ?h2 (Some b) ?r') = {}"
        proof -
          have "x \<notin> set (addrs ?h ?lp l)" if "x \<in> set (addrs ?h2 (Some b) ?r')" for x
            using that sub2 disj addrs_bound [OF hl, of x] by auto
          then show ?thesis by auto
        qed
        ultimately show ?thesis unfolding addrs3 using d2 dl nal by auto
      qed
      have frame3: "?h3 ! x = ?h ! x"
        if "x < length ?h" "x \<notin> set (addrs ?h ptr (Node l r mp nd))" for x
      proof -
        have "x \<noteq> a" "x \<notin> set (addrs ?h ?rp r)" using that(2) all by auto
        moreover from this have "x \<noteq> b" using bin sub2 that(1) by auto
        ultimately show ?thesis using lf(4) frame2 [OF that(1)] by simp
      qed
      have "insert_store_post ps ptr (Node l r mp nd) a (ps2\<lparr>cells := ?h3\<rparr>) (Node l ?r' mp nd)"
        unfolding insert_store_post_def
      proof (intro conjI)
        show "linked (cells (ps2\<lparr>cells := ?h3\<rparr>)) (Some a) (Node l ?r' mp nd)"
          using linked3 by (simp del: linked.simps)
        show "distinct (addrs (cells (ps2\<lparr>cells := ?h3\<rparr>)) (Some a) (Node l ?r' mp nd))"
          using dist3 by (simp del: addrs.simps)
        have "set (addrs ?h3 (Some a) (Node l ?r' mp nd)) \<subseteq>
              set (addrs ?h ptr (Node l r mp nd)) \<union> {length ?h}"
          unfolding addrs3 all using sub2 by auto
        then show "set (addrs (cells (ps2\<lparr>cells := ?h3\<rparr>)) (Some a) (Node l ?r' mp nd)) \<subseteq>
              set (addrs ?h ptr (Node l r mp nd)) \<union> {length ?h}"
          by (simp del: addrs.simps)
        show "length ?h \<le> length (cells (ps2\<lparr>cells := ?h3\<rparr>))"
          using len2 lf(1) by simp
        show "\<forall>x < length ?h. x \<notin> set (addrs ?h ptr (Node l r mp nd)) \<longrightarrow>
                cells (ps2\<lparr>cells := ?h3\<rparr>) ! x = ?h ! x"
          using frame3 by (simp del: addrs.simps)
        show "case ptr of
                Some a' \<Rightarrow> a = a' \<and> cell_parent (cells (ps2\<lparr>cells := ?h3\<rparr>) ! a') = cell_parent (?h ! a')
              | None \<Rightarrow> a = length ?h \<and> cell_parent (cells (ps2\<lparr>cells := ?h3\<rparr>) ! a) = None"
          using lf(2) ha by (simp add: a)
        show "st_root (ps2\<lparr>cells := ?h3\<rparr>) = st_root ps"
          using root2 by simp
      qed
      moreover have "counters_agree (ps2\<lparr>cells := ?h3\<rparr>) (snd (insert_node point r (d + 1) s1))"
        using ag2 by (simp add: counters_agree_def)
      ultimately show ?thesis using res_store res_tree by (simp del: insert_node.simps)
    qed
  qed
qed

lemma addr_at_None [simp]: "addr_at h None es = None"
  by (cases es) auto

lemma addr_at_append: "addr_at h p (es @ es') = addr_at h (addr_at h p es) es'"
  by (induction h p es rule: addr_at.induct) auto

lemma descend_prefix: "descend t (es @ es') \<noteq> Null \<Longrightarrow> descend t es \<noteq> Null"
  by (auto simp: descend_append)

lemma linked_addr_at:
  "linked h p t \<Longrightarrow> distinct (addrs h p t) \<Longrightarrow>
   linked h (addr_at h p es) (descend t es) \<and> distinct (addrs h (addr_at h p es) (descend t es)) \<and>
   set (addrs h (addr_at h p es) (descend t es)) \<subseteq> set (addrs h p t)"
proof (induction t es arbitrary: p rule: descend.induct)
  case (1 n)
  then show ?case by simp
next
  case (2 e es)
  then show ?case by simp
next
  case (3 l r mp nd es)
  then obtain a where a: "p = Some a" by (cases p) auto
  from "3.IH" [of "cell_left (h ! a)"] "3.prems" show ?case by (auto simp: a)
next
  case (4 l r mp nd es)
  then obtain a where a: "p = Some a" by (cases p) auto
  from "4.IH" [of "cell_right (h ! a)"] "4.prems" show ?case by (auto simp: a)
qed

lemma linked_Some: "linked h p t \<Longrightarrow> t \<noteq> Null \<Longrightarrow> \<exists>a. p = Some a"
  by (cases t; cases p) auto

lemma child_in_subtree:
  "linked h p t \<Longrightarrow> distinct (addrs h p t) \<Longrightarrow> descend t (e # es) \<noteq> Null \<Longrightarrow> p = Some a \<Longrightarrow>
   addr_at h p (e # es) \<noteq> Some a"
proof -
  assume h: "linked h p t" "distinct (addrs h p t)" "descend t (e # es) \<noteq> Null" "p = Some a"
  then obtain l r mp nd where t: "t = Node l r mp nd" by (cases t) auto
  let ?c = "case e of ToLeft \<Rightarrow> cell_left (h ! a) | ToRight \<Rightarrow> cell_right (h ! a)"
  let ?s = "case e of ToLeft \<Rightarrow> l | ToRight \<Rightarrow> r"
  have lc: "linked h ?c ?s" "distinct (addrs h ?c ?s)" "a \<notin> set (addrs h ?c ?s)"
    using h(1,2,4) by (auto simp: t split: dir.splits)
  have d: "descend ?s es \<noteq> Null" using h(3) by (auto simp: t split: dir.splits)
  from linked_addr_at [OF lc(1,2), of es]
  have sub: "linked h (addr_at h ?c es) (descend ?s es)"
    "set (addrs h (addr_at h ?c es) (descend ?s es)) \<subseteq> set (addrs h ?c ?s)" by auto
  from linked_Some [OF sub(1) d] obtain b where b: "addr_at h ?c es = Some b" by auto
  have "b \<in> set (addrs h ?c ?s)" using linked_top sub b by fastforce
  then have "b \<noteq> a" using lc(3) by auto
  moreover have "addr_at h p (e # es) = addr_at h ?c es"
    using h(4) by (cases e) auto
  ultimately show ?thesis using b by simp
qed


lemma position_facts:
  assumes "linked h rt t" "distinct (addrs h rt t)" "descend t (rev up) = Node l r mp nd"
  shows "\<exists>a. ptr_of h rt (Some up) = Some a \<and>
           cell_left (h ! a) = ptr_of h rt (Some (ToLeft # up)) \<and>
           cell_right (h ! a) = ptr_of h rt (Some (ToRight # up)) \<and>
           linked h (cell_right (h ! a)) r \<and>
           (r = Null \<longleftrightarrow> cell_right (h ! a) = None) \<and>
           (\<forall>b. cell_left (h ! a) = Some b \<longrightarrow>
                cell_parent (h ! b) = Some a \<and> cell_right (h ! a) \<noteq> Some b) \<and>
           (\<forall>b. cell_right (h ! a) = Some b \<longrightarrow> cell_parent (h ! b) = Some a)"
proof -
  from linked_addr_at [OF assms(1,2), of "rev up"] assms(3)
  have sub: "linked h (addr_at h rt (rev up)) (Node l r mp nd)"
    "distinct (addrs h (addr_at h rt (rev up)) (Node l r mp nd))" by auto
  then obtain a where a: "addr_at h rt (rev up) = Some a" by (cases "addr_at h rt (rev up)") auto
  have ll: "linked h (cell_left (h ! a)) l" and lr: "linked h (cell_right (h ! a)) r"
    using sub(1) by (auto simp: a)
  have nr: "r = Null \<longleftrightarrow> cell_right (h ! a) = None"
    using lr linked_Some [OF lr] by (cases r) auto
  have disj: "set (addrs h (cell_left (h ! a)) l) \<inter> set (addrs h (cell_right (h ! a)) r) = {}"
    using sub(2) by (auto simp: a)
  have lne: "cell_right (h ! a) \<noteq> Some b" if "cell_left (h ! a) = Some b" for b
  proof
    assume "cell_right (h ! a) = Some b"
    then have "b \<in> set (addrs h (cell_right (h ! a)) r)" using lr linked_top by fastforce
    moreover have "b \<in> set (addrs h (cell_left (h ! a)) l)" using ll that linked_top by fastforce
    ultimately show False using disj by auto
  qed
  have par: "cell_left (h ! a) = Some b \<Longrightarrow> cell_parent (h ! b) = Some a"
    "cell_right (h ! a) = Some b \<Longrightarrow> cell_parent (h ! b) = Some a" for b
    using sub(1) by (auto simp: a)
  have 1: "ptr_of h rt (Some up) = Some a" by (simp add: ptr_of_def a)
  have 2: "cell_left (h ! a) = ptr_of h rt (Some (ToLeft # up))"
    by (simp add: ptr_of_def addr_at_append a)
  have 3: "cell_right (h ! a) = ptr_of h rt (Some (ToRight # up))"
    by (simp add: ptr_of_def addr_at_append a)
  show ?thesis
  proof (intro exI [of _ a] conjI allI impI)
    show "ptr_of h rt (Some up) = Some a" by (fact 1)
    show "cell_left (h ! a) = ptr_of h rt (Some (ToLeft # up))" by (fact 2)
    show "cell_right (h ! a) = ptr_of h rt (Some (ToRight # up))" by (fact 3)
    show "linked h (cell_right (h ! a)) r" by (fact lr)
    show "(r = Null) = (cell_right (h ! a) = None)" by (fact nr)
    show "cell_parent (h ! b) = Some a" if "cell_left (h ! a) = Some b" for b
      using that by (rule par(1))
    show "cell_right (h ! a) \<noteq> Some b" if "cell_left (h ! a) = Some b" for b
      using that by (rule lne)
    show "cell_parent (h ! b) = Some a" if "cell_right (h ! a) = Some b" for b
      using that by (rule par(2))
  qed
qed

lemma left_store_refines:
  "linked h p t' \<Longrightarrow> t' \<noteq> Null \<Longrightarrow> p = addr_at h rt (rev up) \<Longrightarrow>
   left_store h p = Some (addr_at h rt (rev (left_from t' up)))"
proof (induction t' arbitrary: p up)
  case Null
  then show ?case by simp
next
  case (Node l r mp nd)
  from Node.prems(1) obtain a where a: "p = Some a" by (cases p) auto
  have ad: "addr_at h rt (rev up) = Some a" using Node.prems(3) a by simp
  have ll: "linked h (cell_left (h ! a)) l" using Node.prems(1) by (simp add: a)
  show ?case
  proof (cases "l = Null")
    case True
    then have "cell_left (h ! a) = None" using ll by simp
    then have "left_store h (Some a) = Some (Some a)"
      by (subst left_store.simps) simp
    then show ?thesis
      using True ad by (simp add: a)
  next
    case False
    from linked_Some [OF ll False] obtain b where b: "cell_left (h ! a) = Some b" by auto
    have "Some b = addr_at h rt (rev (ToLeft # up))"
      using ad b by (simp add: addr_at_append)
    from Node.IH(1) [OF _ False this] ll b
    have "left_store h (Some b) = Some (addr_at h rt (rev (left_from l (ToLeft # up))))" by simp
    moreover have "left_store h (Some a) = left_store h (Some b)"
      using b by (subst left_store.simps) simp
    ultimately show ?thesis
      using False by (simp add: a)
  qed
qed

lemma climb_store_refines:
  assumes "linked h rt t" "distinct (addrs h rt t)"
    and root: "rt = Some a0" "cell_parent (h ! a0) = None"
  shows "descend t (rev up) \<noteq> Null \<Longrightarrow> ptr_of h rt (Some up) = Some a \<Longrightarrow>
     \<exists>n. climb_store h a (cell_parent (h ! a)) isRight = Some (n, snd (climb up isRight)) \<and>
         ptr_of h rt (Some (fst (climb up isRight))) = Some n \<and>
         descend t (rev (fst (climb up isRight))) \<noteq> Null"
proof (induction up isRight arbitrary: a rule: climb.induct [case_names at_right at_root at_left])
  case (at_right up isRight)
  have v: "descend t (rev up) \<noteq> Null"
    using at_right.prems(1) descend_prefix [of t "rev up" "[ToRight]"] by simp
  then obtain l r mp nd where n: "descend t (rev up) = Node l r mp nd"
    by (cases "descend t (rev up)") auto
  from position_facts [OF assms(1,2) n]
  obtain pa where pa: "ptr_of h rt (Some up) = Some pa"
    "cell_right (h ! pa) = ptr_of h rt (Some (ToRight # up))"
    "\<forall>b. cell_right (h ! pa) = Some b \<longrightarrow> cell_parent (h ! b) = Some pa"
    by blast
  have r: "cell_right (h ! pa) = Some a" using pa(2) at_right.prems(2) by simp
  have p: "cell_parent (h ! a) = Some pa" using pa(3) r by blast
  from at_right.IH [OF v pa(1)]
  obtain m where "climb_store h pa (cell_parent (h ! pa)) True = Some (m, snd (climb up True))"
    "ptr_of h rt (Some (fst (climb up True))) = Some m"
    "descend t (rev (fst (climb up True))) \<noteq> Null"
    by auto
  then show ?case
    using r p by (subst climb_store.simps) simp
next
  case (at_root isRight)
  then have "a = a0" using root by (simp add: ptr_of_def)
  then show ?case
    using root at_root.prems by (subst climb_store.simps) simp
next
  case (at_left up isRight)
  have v: "descend t (rev up) \<noteq> Null"
    using at_left.prems(1) descend_prefix [of t "rev up" "[ToLeft]"] by simp
  then obtain l r mp nd where n: "descend t (rev up) = Node l r mp nd"
    by (cases "descend t (rev up)") auto
  from position_facts [OF assms(1,2) n]
  obtain pa where pa: "ptr_of h rt (Some up) = Some pa"
    "cell_left (h ! pa) = ptr_of h rt (Some (ToLeft # up))"
    "\<forall>b. cell_left (h ! pa) = Some b \<longrightarrow>
       cell_parent (h ! b) = Some pa \<and> cell_right (h ! pa) \<noteq> Some b"
    by blast
  have l: "cell_left (h ! pa) = Some a" using pa(2) at_left.prems(2) by simp
  have p: "cell_parent (h ! a) = Some pa" "cell_right (h ! pa) \<noteq> Some a"
    using pa(3) l by blast+
  show ?case
    using p at_left.prems by (subst climb_store.simps) simp
qed

theorem next_store_refines:
  assumes "linked h rt t" "distinct (addrs h rt t)"
    and root: "rt = Some a0" "cell_parent (h ! a0) = None"
    and valid: "node_at t (Some up) \<noteq> Null"
  shows "next_store isRight0 h rt (ptr_of h rt (Some up)) =
           Some (ptr_of h rt (PointSet_next isRight0 t (Some up)))"
proof -
  from valid obtain l r mp nd where n: "descend t (rev up) = Node l r mp nd"
    by (cases "descend t (rev up)") (auto simp: node_at_def)
  from position_facts [OF assms(1,2) n]
  obtain a where a: "ptr_of h rt (Some up) = Some a"
    "cell_right (h ! a) = ptr_of h rt (Some (ToRight # up))"
    "linked h (cell_right (h ! a)) r" "r = Null \<longleftrightarrow> cell_right (h ! a) = None"
    by (elim exE conjE) (rule that)
  show ?thesis
  proof (cases "r = Null")
    case False
    then obtain rb where rb: "cell_right (h ! a) = Some rb" using a(4) by auto
    have at: "node_at t (Some (ToRight # up)) = r"
      using n by (simp add: node_at_def descend_append)
    have "cell_right (h ! a) = addr_at h rt (rev (ToRight # up))"
      using a(2) by (simp add: ptr_of_def)
    from left_store_refines [OF a(3) False this]
    have "left_store h (Some rb) = Some (ptr_of h rt (Some (left_from r (ToRight # up))))"
      by (simp add: rb ptr_of_def)
    then show ?thesis
      using False rb n at
      by (simp add: next_store_def a(1) PointSet_next_def PointSet_left_def node_at_def)
  next
    case True
    then have none: "cell_right (h ! a) = None" using a(4) by simp
    have v: "descend t (rev up) \<noteq> Null" using n by simp
    from climb_store_refines [OF assms(1,2) root v a(1), of isRight0]
    obtain m where m: "climb_store h a (cell_parent (h ! a)) isRight0 = Some (m, snd (climb up isRight0))"
      "ptr_of h rt (Some (fst (climb up isRight0))) = Some m"
      "descend t (rev (fst (climb up isRight0))) \<noteq> Null"
      by auto
    let ?up' = "fst (climb up isRight0)" and ?ir = "snd (climb up isRight0)"
    have final: "(if Some m = rt \<and> ?ir then Some None
                  else (case cell_parent (h ! m) of Some pa \<Rightarrow> Some (Some pa) | None \<Rightarrow> Some (Some m))) =
                 Some (ptr_of h rt (if ?up' = [] \<and> ?ir then None
                                   else (case ?up' of [] \<Rightarrow> Some ?up' | e # parent \<Rightarrow> Some parent)))"
    proof (cases ?up')
      case Nil
      then have "m = a0" using m(2) root by (simp add: ptr_of_def)
      then show ?thesis using Nil root by (simp add: ptr_of_def)
    next
      case (Cons e parent)
      have vp: "descend t (rev parent) \<noteq> Null"
        using m(3) Cons descend_prefix [of t "rev parent" "[e]"] by simp
      then obtain l' r' mp' nd' where np: "descend t (rev parent) = Node l' r' mp' nd'"
        by (cases "descend t (rev parent)") auto
      from position_facts [OF assms(1,2) np]
      obtain pa where pa: "ptr_of h rt (Some parent) = Some pa"
        "cell_left (h ! pa) = ptr_of h rt (Some (ToLeft # parent))"
        "cell_right (h ! pa) = ptr_of h rt (Some (ToRight # parent))"
        "\<forall>b. cell_left (h ! pa) = Some b \<longrightarrow>
           cell_parent (h ! b) = Some pa \<and> cell_right (h ! pa) \<noteq> Some b"
        "\<forall>b. cell_right (h ! pa) = Some b \<longrightarrow> cell_parent (h ! b) = Some pa"
        by blast
      have "cell_left (h ! pa) = Some m \<or> cell_right (h ! pa) = Some m"
        using pa(2,3) m(2) Cons by (cases e) simp_all
      then have pm: "cell_parent (h ! m) = Some pa"
        using pa(4,5) by blast
      have "addr_at h rt (rev (e # parent)) \<noteq> Some a0"
      proof -
        obtain e' es' where es: "rev (e # parent) = e' # es'" by (cases "rev (e # parent)") auto
        have "descend t (e' # es') \<noteq> Null" using m(3) Cons es by simp
        from child_in_subtree [OF assms(1,2) this root(1)] show ?thesis
          unfolding es by (simp add: root(1))
      qed
      then have "Some m \<noteq> rt" using m(2) Cons root by (simp add: ptr_of_def)
      then show ?thesis using Cons pa(1) pm by simp
    qed
    have lhs: "next_store isRight0 h rt (ptr_of h rt (Some up)) =
        (if Some m = rt \<and> ?ir then Some None
         else (case cell_parent (h ! m) of Some pa \<Rightarrow> Some (Some pa) | None \<Rightarrow> Some (Some m)))"
      by (simp add: next_store_def a(1) none m(1))
    have rhs: "PointSet_next isRight0 t (Some up) =
        (if ?up' = [] \<and> ?ir then None
         else (case ?up' of [] \<Rightarrow> Some ?up' | e # parent \<Rightarrow> Some parent))"
      using True n by (simp add: PointSet_next_def node_at_def next_above_def split_beta)
    show ?thesis
      unfolding lhs rhs by (rule final)
  qed
qed

text \<open>
  X10. On a store that holds the tree of a set, with distinct cells and a root without
  parent, \<open>m_root = insert(p, m_root, 0)\<close> returns, and the store then holds the tree that
  \<open>insert_node\<close> computes, again with distinct cells, with every parent link at the cell
  that links to the child, and with the same \<open>max_depth\<close> and \<open>m_size\<close>.
\<close>

theorem insert_at_root_store_refines:
  assumes "represents ps s"
  shows "\<exists>ps'. insert_at_root_store p ps = Some ps' \<and> represents ps' (insert_at_root p s)"
proof -
  have l: "linked (cells ps) (st_root ps) (m_root s)"
    and d: "distinct (addrs (cells ps) (st_root ps) (m_root s))"
    and c: "counters_agree ps s"
    and rp: "case st_root ps of None \<Rightarrow> True | Some a \<Rightarrow> cell_parent (cells ps ! a) = None"
    using assms by (simp_all add: represents_def counters_agree_def)
  from insert_store_refines [OF l d c, of p 0]
  obtain b ps' where ins: "insert_store p (st_root ps) 0 ps = Some (b, ps')"
    and post: "insert_store_post ps (st_root ps) (m_root s) b ps' (fst (insert_node p (m_root s) 0 s))"
    and ag: "counters_agree ps' (snd (insert_node p (m_root s) 0 s))"
    by blast
  have root: "m_root (insert_at_root p s) = fst (insert_node p (m_root s) 0 s)"
    by (rule m_root_insert_at_root)
  have cnt: "max_depth (insert_at_root p s) = max_depth (snd (insert_node p (m_root s) 0 s))"
    "m_size (insert_at_root p s) = m_size (snd (insert_node p (m_root s) 0 s))"
    by (simp_all add: insert_at_root_def split: prod.splits)
  have par: "cell_parent (cells ps' ! b) = None"
    using post rp by (auto simp: insert_store_post_def split: option.splits)
  have "represents (ps'\<lparr>st_root := Some b\<rparr>) (insert_at_root p s)"
    unfolding represents_def root cnt
    using post ag par by (simp add: insert_store_post_def counters_agree_def)
  then show ?thesis
    using ins by (simp add: insert_at_root_store_def)
qed

theorem insert_at_root_store_refines_witness:
  "\<exists>ps'. insert_at_root_store (Point 1 1) empty_store = Some ps' \<and>
         represents ps' (insert_at_root (Point 1 1) empty_PointSet)"
proof -
  have "represents empty_store empty_PointSet"
    by (simp add: represents_def empty_store_def empty_PointSet_def)
  from insert_at_root_store_refines [OF this] show ?thesis .
qed

text \<open>
  X11. On such a store \<open>next\<close>, which follows the parent links and compares addresses,
  returns the address of the node that \<open>PointSet_next\<close> returns as a path, and \<open>left\<close> of
  the root returns the address of \<open>begin()\<close>.
\<close>

theorem next_store_follows_parents:
  assumes "represents ps s" and "node_at (m_root s) (Some up) \<noteq> Null"
  shows "next_store isRight0 (cells ps) (st_root ps) (ptr_of (cells ps) (st_root ps) (Some up)) =
           Some (ptr_of (cells ps) (st_root ps) (PointSet_next isRight0 (m_root s) (Some up))) \<and>
         left_store (cells ps) (st_root ps) =
           Some (ptr_of (cells ps) (st_root ps) (PointSet_begin s))"
proof -
  have l: "linked (cells ps) (st_root ps) (m_root s)"
    and d: "distinct (addrs (cells ps) (st_root ps) (m_root s))"
    using assms(1) by (simp_all add: represents_def)
  have ne: "m_root s \<noteq> Null" using assms(2) by (auto simp: node_at_def)
  from linked_Some [OF l ne] obtain a0 where a0: "st_root ps = Some a0" by auto
  have rp: "cell_parent (cells ps ! a0) = None"
    using assms(1) by (simp add: represents_def a0)
  have "st_root ps = addr_at (cells ps) (st_root ps) (rev [])" by simp
  from left_store_refines [OF l ne this]
  have "left_store (cells ps) (st_root ps) =
        Some (ptr_of (cells ps) (st_root ps) (PointSet_begin s))"
    using ne by (simp add: PointSet_begin_def root_ptr_def PointSet_left_def node_at_def ptr_of_def)
  then show ?thesis
    using next_store_refines [OF l d a0 rp assms(2)] by simp
qed

theorem next_store_follows_parents_witness:
  "next_store False
     [\<lparr>cell_left = Some 1, cell_right = None, cell_parent = None, cell_point = Point 2 2, cell_depth = 0\<rparr>,
      \<lparr>cell_left = None, cell_right = None, cell_parent = Some 0, cell_point = Point 1 1, cell_depth = 1\<rparr>]
     (Some 0) (Some 1) = Some (Some 0)"
  using next_store_follows_parents [of
      "\<lparr>cells = [\<lparr>cell_left = Some 1, cell_right = None, cell_parent = None, cell_point = Point 2 2, cell_depth = 0\<rparr>,
                 \<lparr>cell_left = None, cell_right = None, cell_parent = Some 0, cell_point = Point 1 1, cell_depth = 1\<rparr>],
        st_max_depth = 1, st_root = Some 0, st_size = 2\<rparr>"
      "\<lparr>max_depth = 1, m_root = Node (Node Null Null (Point 1 1) 1) Null (Point 2 2) 0, m_size = 2\<rparr>"
      "[ToLeft]" False]
  by (simp add: represents_def node_at_def ptr_of_def PointSet_next_def next_above_def)

end
